theory Spec2Isabelle
  imports Complex_Main
begin

section \<open>The arithmetic expression evaluator of \<^verbatim>\<open>shunting_yard.c\<close>\<close>

text \<open>
  The program reads one line, turns it into tokens (\<^verbatim>\<open>scanner_execute\<close>) and evaluates
  the tokens with two stacks (\<^verbatim>\<open>eval_by_shunting_yard\<close>). Every \<^verbatim>\<open>exit\<close> of the C code is
  a value of the type \<open>error\<close> here, and the two global stacks are passed and returned
  explicitly. Allocation is taken to succeed, so the exit of \<^verbatim>\<open>token_list_add_item\<close> on a
  failed \<^verbatim>\<open>realloc\<close> has no branch.
\<close>

subsection \<open>Values of type \<^verbatim>\<open>double\<close>\<close>

text \<open>
  A \<^verbatim>\<open>double\<close> is a signed zero, a finite non-zero number, a signed infinity or a NaN.
  The flag of a zero or an infinity is its sign bit (\<open>True\<close> for negative). Finite results
  are kept as exact rationals: the rounding to 53 bits, overflow and underflow of binary64
  are not part of this model. The special cases (zeros, infinities, NaN) follow IEEE 754.
\<close>

datatype double = DZero bool | DFinite rat | DInfinity bool | DNaN

definition mk_finite :: "rat \<Rightarrow> double" where
  "mk_finite r = (if r = 0 then DZero False else DFinite r)"

fun sign_bit :: "double \<Rightarrow> bool" where
  "sign_bit (DZero s) = s"
| "sign_bit (DFinite r) = (r < 0)"
| "sign_bit (DInfinity s) = s"
| "sign_bit DNaN = False"

fun d_neg :: "double \<Rightarrow> double" where
  "d_neg (DZero s) = DZero (\<not> s)"
| "d_neg (DFinite r) = DFinite (- r)"
| "d_neg (DInfinity s) = DInfinity (\<not> s)"
| "d_neg DNaN = DNaN"

fun d_add :: "double \<Rightarrow> double \<Rightarrow> double" where
  "d_add DNaN b = DNaN"
| "d_add a DNaN = DNaN"
| "d_add (DInfinity s) (DInfinity t) = (if s = t then DInfinity s else DNaN)"
| "d_add (DInfinity s) b = DInfinity s"
| "d_add a (DInfinity t) = DInfinity t"
| "d_add (DZero s) (DZero t) = DZero (s \<and> t)"
| "d_add (DZero s) (DFinite y) = DFinite y"
| "d_add (DFinite x) (DZero t) = DFinite x"
| "d_add (DFinite x) (DFinite y) = mk_finite (x + y)"

definition d_sub :: "double \<Rightarrow> double \<Rightarrow> double" where
  "d_sub a b = d_add a (d_neg b)"

fun d_mul :: "double \<Rightarrow> double \<Rightarrow> double" where
  "d_mul DNaN b = DNaN"
| "d_mul a DNaN = DNaN"
| "d_mul (DInfinity s) (DZero t) = DNaN"
| "d_mul (DZero s) (DInfinity t) = DNaN"
| "d_mul (DInfinity s) b = DInfinity (s \<noteq> sign_bit b)"
| "d_mul a (DInfinity t) = DInfinity (sign_bit a \<noteq> t)"
| "d_mul (DZero s) b = DZero (s \<noteq> sign_bit b)"
| "d_mul a (DZero t) = DZero (sign_bit a \<noteq> t)"
| "d_mul (DFinite x) (DFinite y) = DFinite (x * y)"

fun d_div :: "double \<Rightarrow> double \<Rightarrow> double" where
  "d_div DNaN b = DNaN"
| "d_div a DNaN = DNaN"
| "d_div (DInfinity s) (DInfinity t) = DNaN"
| "d_div (DZero s) (DZero t) = DNaN"
| "d_div (DInfinity s) b = DInfinity (s \<noteq> sign_bit b)"
| "d_div a (DInfinity t) = DZero (sign_bit a \<noteq> t)"
| "d_div a (DZero t) = DInfinity (sign_bit a \<noteq> t)"
| "d_div (DZero s) b = DZero (s \<noteq> sign_bit b)"
| "d_div (DFinite x) (DFinite y) = DFinite (x / y)"

fun is_zero :: "double \<Rightarrow> bool" where
  "is_zero (DZero s) = True"
| "is_zero d = False"

fun is_infinity :: "double \<Rightarrow> bool" where
  "is_infinity (DInfinity s) = True"
| "is_infinity d = False"

fun is_nan :: "double \<Rightarrow> bool" where
  "is_nan DNaN = True"
| "is_nan d = False"

subsection \<open>Tokens\<close>

text \<open>
  The enumerator \<^verbatim>\<open>TOKEN_TYPE_COUNT\<close> only gives the length of the precedence table and is
  never the type of a token, so it is not a constructor.
\<close>

datatype TokenType =
    TOKEN_UMINUS
  | TOKEN_STAR
  | TOKEN_SLASH
  | TOKEN_PLUS
  | TOKEN_MINUS
  | TOKEN_NUMBER
  | TOKEN_LEFT_PAREN
  | TOKEN_RIGHT_PAREN

fun TOKEN_TYPE_PRECEDENCE :: "TokenType \<Rightarrow> int" where
  "TOKEN_TYPE_PRECEDENCE TOKEN_UMINUS = 4"
| "TOKEN_TYPE_PRECEDENCE TOKEN_STAR = 3"
| "TOKEN_TYPE_PRECEDENCE TOKEN_SLASH = 3"
| "TOKEN_TYPE_PRECEDENCE TOKEN_PLUS = 2"
| "TOKEN_TYPE_PRECEDENCE TOKEN_MINUS = 2"
| "TOKEN_TYPE_PRECEDENCE TOKEN_NUMBER = 0"
| "TOKEN_TYPE_PRECEDENCE TOKEN_LEFT_PAREN = 0"
| "TOKEN_TYPE_PRECEDENCE TOKEN_RIGHT_PAREN = 0"

record Token =
  type :: TokenType
  literal :: double
  start_at :: int
  end_at :: int

datatype error =
    UnexpectedCharacter char nat
  | OperatorsStackOverflow
  | OperatorsStackEmpty
  | ValuesStackOverflow
  | ValuesStackEmpty
  | InvalidTokenType int int
  | MismatchedRightParen int
  | MismatchedLeftParen int
  | CannotEvaluate

text \<open>The status the process exits with: \<^verbatim>\<open>ERROR_PARSING\<close> is 4, \<^verbatim>\<open>ERROR_EVALUATION\<close> is 5.\<close>

fun exit_code :: "error \<Rightarrow> nat" where
  "exit_code (UnexpectedCharacter c i) = 4"
| "exit_code e = 5"

subsection \<open>The scanner\<close>

text \<open>
  The source is the text before the terminating \<^verbatim>\<open>'\0'\<close> of the buffer; reading at its
  length gives the terminator. The scanner never reads beyond that byte.
\<close>

definition char_at :: "string \<Rightarrow> nat \<Rightarrow> char" where
  "char_at s i = (if i < length s then s ! i else CHR 0x00)"

definition IS_DIGIT :: "char \<Rightarrow> bool" where
  "IS_DIGIT c = ((48::nat) \<le> of_char c \<and> of_char c \<le> (57::nat))"

record Scanner =
  source :: string
  tokens :: "Token list"
  start :: nat
  current :: nat

definition scanner_init :: "string \<Rightarrow> Scanner" where
  "scanner_init src = \<lparr>source = src, tokens = [], start = 0, current = 0\<rparr>"

definition scanner_is_at_end :: "Scanner \<Rightarrow> bool" where
  "scanner_is_at_end sc =
     (let c = char_at (source sc) (current sc) in c = CHR 0x00 \<or> c = CHR 0x0A)"

definition scanner_advance :: "Scanner \<Rightarrow> char \<times> Scanner" where
  "scanner_advance sc = (char_at (source sc) (current sc), sc\<lparr>current := current sc + 1\<rparr>)"

text \<open>
  \<^verbatim>\<open>scanner_add_token\<close> leaves the field \<^verbatim>\<open>literal\<close> of the new token uninitialised; the
  program reads it only for a number, after \<^verbatim>\<open>scanner_number\<close> has set it. The model
  stores a positive zero there.
\<close>

definition scanner_add_token :: "Scanner \<Rightarrow> TokenType \<Rightarrow> Scanner" where
  "scanner_add_token sc ty =
     sc\<lparr>tokens := tokens sc @
       [\<lparr>type = ty, literal = DZero False,
         start_at = int (start sc), end_at = int (current sc) - 1\<rparr>]\<rparr>"

definition scanner_peek :: "Scanner \<Rightarrow> char" where
  "scanner_peek sc = char_at (source sc) (current sc)"

definition scanner_peek_next :: "Scanner \<Rightarrow> char" where
  "scanner_peek_next sc =
     (if scanner_peek sc = CHR 0x00 then CHR 0x00 else char_at (source sc) (current sc + 1))"

lemma IS_DIGIT_in_source: "IS_DIGIT (char_at s i) \<Longrightarrow> i < length s"
  by (auto simp: IS_DIGIT_def char_at_def split: if_splits)

text \<open>The loop \<^verbatim>\<open>while (IS_DIGIT(scanner_peek(scanner))) scanner_advance(scanner);\<close>\<close>

function scanner_digits :: "Scanner \<Rightarrow> Scanner" where
  "scanner_digits sc =
     (if IS_DIGIT (scanner_peek sc) then scanner_digits (snd (scanner_advance sc)) else sc)"
  by pat_completeness auto
termination
  by (relation "measure (\<lambda>sc. length (source sc) - current sc)")
     (auto simp: scanner_peek_def scanner_advance_def dest: IS_DIGIT_in_source)

declare scanner_digits.simps [simp del]

text \<open>
  Modelled from the spec: \<^verbatim>\<open>atof\<close> of the C library, which is not part of the repository,
  as the standard decimal parsing of the spec: the value of the longest prefix of the
  C string that is a run of digits, optionally followed by \<open>.\<close> and a run of digits.
  Signs, exponents, hexadecimal forms and leading white space are left out: the scanner
  only passes strings of at most two characters that start with a digit.
\<close>

definition digit_value :: "char \<Rightarrow> nat" where
  "digit_value c = of_char c - 48"

definition digits_value :: "string \<Rightarrow> nat" where
  "digits_value ds = foldl (\<lambda>a c. 10 * a + digit_value c) 0 ds"

definition atof :: "string \<Rightarrow> double" where
  "atof s =
     (let cs = takeWhile (\<lambda>c. c \<noteq> CHR 0x00) s;
          ip = takeWhile IS_DIGIT cs;
          rest = dropWhile IS_DIGIT cs;
          fp = (case rest of [] \<Rightarrow> [] | c # r \<Rightarrow> if c = CHR ''.'' then takeWhile IS_DIGIT r else [])
      in mk_finite (of_nat (digits_value ip) + of_nat (digits_value fp) / 10 ^ length fp))"

text \<open>\<^verbatim>\<open>memcpy(dst, &source[from], n)\<close>: the \<open>n\<close> characters of the buffer from \<open>from\<close> on.\<close>

definition memcpy_source :: "string \<Rightarrow> nat \<Rightarrow> nat \<Rightarrow> string" where
  "memcpy_source src from n = map (char_at src) [from ..< from + n]"

text \<open>
  \<^verbatim>\<open>scanner_number\<close>: the first digit has been consumed by \<^verbatim>\<open>scanner_scan_token\<close>. The
  text given to \<^verbatim>\<open>atof\<close> is computed as in the source: \<^verbatim>\<open>end_at\<close> is \<^verbatim>\<open>token->start_at + 1\<close>
  and \<^verbatim>\<open>length\<close> is \<^verbatim>\<open>end_at - start_at + 2\<close>, of which \<^verbatim>\<open>length - 1\<close> characters are copied.
\<close>

definition scanner_number :: "Scanner \<Rightarrow> Scanner" where
  "scanner_number sc =
     (let sc1 = scanner_digits sc;
          sc2 = (if scanner_peek sc1 = CHR ''.'' \<and> IS_DIGIT (scanner_peek_next sc1)
                 then scanner_digits (snd (scanner_advance sc1)) else sc1);
          sc3 = scanner_add_token sc2 TOKEN_NUMBER;
          token = last (tokens sc3);
          start_at' = start_at token;
          end_at' = start_at token + 1;
          length' = end_at' - start_at' + 2;
          liter_as_str = memcpy_source (source sc3) (nat start_at') (nat (length' - 1));
          literal' = atof liter_as_str
      in sc3\<lparr>tokens := butlast (tokens sc3) @ [token\<lparr>literal := literal'\<rparr>]\<rparr>)"

definition scanner_scan_token :: "Scanner \<Rightarrow> error + Scanner" where
  "scanner_scan_token sc0 =
     (let (c, sc) = scanner_advance sc0 in
      if c = CHR ''+'' then Inr (scanner_add_token sc TOKEN_PLUS)
      else if c = CHR ''-'' then
        (if length (tokens sc) = 0
            \<or> (type (last (tokens sc)) \<noteq> TOKEN_NUMBER
               \<and> type (last (tokens sc)) \<noteq> TOKEN_RIGHT_PAREN)
         then Inr (scanner_add_token sc TOKEN_UMINUS)
         else Inr (scanner_add_token sc TOKEN_MINUS))
      else if c = CHR ''*'' then Inr (scanner_add_token sc TOKEN_STAR)
      else if c = CHR ''/'' then Inr (scanner_add_token sc TOKEN_SLASH)
      else if c = CHR ''('' then Inr (scanner_add_token sc TOKEN_LEFT_PAREN)
      else if c = CHR '')'' then Inr (scanner_add_token sc TOKEN_RIGHT_PAREN)
      else if c = CHR '' '' then Inr sc
      else if IS_DIGIT c then Inr (scanner_number sc)
      else Inl (UnexpectedCharacter c (current sc - 1)))"

text \<open>What the termination of the loop of \<^verbatim>\<open>scanner_execute\<close> needs: every turn moves on.\<close>

lemma scanner_digits_source [simp]: "source (scanner_digits sc) = source sc"
proof (induction sc rule: scanner_digits.induct)
  case (1 sc)
  then show ?case
    by (subst scanner_digits.simps) (simp add: scanner_advance_def)
qed

lemma scanner_digits_current_ge: "current sc \<le> current (scanner_digits sc)"
proof (induction sc rule: scanner_digits.induct)
  case (1 sc)
  show ?case
  proof (cases "IS_DIGIT (scanner_peek sc)")
    case True
    then have "scanner_digits sc = scanner_digits (snd (scanner_advance sc))"
      by (subst scanner_digits.simps) simp
    with 1 [OF True] show ?thesis by (simp add: scanner_advance_def)
  next
    case False
    then show ?thesis by (subst scanner_digits.simps) simp
  qed
qed

lemma scanner_scan_token_progress:
  assumes "scanner_scan_token sc = Inr sc'"
  shows "source sc' = source sc \<and> current sc < current sc'"
proof -
  let ?a = "sc\<lparr>current := current sc + 1\<rparr>"
  have d: "current sc < current (scanner_digits ?a)"
    using scanner_digits_current_ge [of ?a] by simp
  have "current ?a \<le> current (scanner_digits ?a)"
    by (rule scanner_digits_current_ge)
  also have "\<dots> \<le> current (scanner_digits (snd (scanner_advance (scanner_digits ?a))))"
    using scanner_digits_current_ge [of "snd (scanner_advance (scanner_digits ?a))"]
    by (simp add: scanner_advance_def)
  finally have d2: "current sc < current (scanner_digits (snd (scanner_advance (scanner_digits ?a))))"
    by simp
  have n: "source (scanner_number ?a) = source sc \<and> current sc < current (scanner_number ?a)"
    using d d2 by (simp add: scanner_number_def Let_def scanner_add_token_def scanner_advance_def)
  show ?thesis
    using assms n
    by (auto simp: scanner_scan_token_def scanner_advance_def scanner_add_token_def
             split: if_splits)
qed

text \<open>The loop of \<^verbatim>\<open>scanner_execute\<close>, on the scanner's state.\<close>

function scanner_loop :: "Scanner \<Rightarrow> error + Scanner" where
  "scanner_loop sc =
     (if scanner_is_at_end sc then Inr sc
      else (case scanner_scan_token (sc\<lparr>start := current sc\<rparr>) of
              Inl e \<Rightarrow> Inl e
            | Inr sc' \<Rightarrow> scanner_loop sc'))"
  by pat_completeness auto
termination
proof (relation "measure (\<lambda>sc. length (source sc) - current sc)")
  show "wf (measure (\<lambda>sc. length (source sc) - current sc))" by simp
next
  fix sc sc' :: Scanner
  assume e: "\<not> scanner_is_at_end sc"
    and s: "scanner_scan_token (sc\<lparr>start := current sc\<rparr>) = Inr sc'"
  from e have "current sc < length (source sc)"
    by (auto simp: scanner_is_at_end_def char_at_def split: if_splits)
  moreover from scanner_scan_token_progress [OF s]
  have "source sc' = source sc" and "current sc < current sc'" by simp_all
  ultimately show "(sc', sc) \<in> measure (\<lambda>sc. length (source sc) - current sc)"
    by simp
qed

declare scanner_loop.simps [simp del]

definition scanner_execute :: "string \<Rightarrow> error + Token list" where
  "scanner_execute src =
     (case scanner_loop (scanner_init src) of Inl e \<Rightarrow> Inl e | Inr sc \<Rightarrow> Inr (tokens sc))"

subsection \<open>The two stacks\<close>

text \<open>
  \<^verbatim>\<open>shy_operators\<close> and \<^verbatim>\<open>shy_values\<close> are arrays of 1024 slots with a count each. A
  stack is the list of its live slots, the top first, and its count is the length of
  the list.
\<close>

definition STACK_SIZE_SHY_OPERATORS :: nat where
  "STACK_SIZE_SHY_OPERATORS = 1024"

definition STACK_SIZE_SHY_VALUES :: nat where
  "STACK_SIZE_SHY_VALUES = 1024"

definition push_operator :: "Token \<Rightarrow> Token list \<Rightarrow> error + Token list" where
  "push_operator token shy_operators =
     (if length shy_operators \<ge> STACK_SIZE_SHY_OPERATORS then Inl OperatorsStackOverflow
      else Inr (token # shy_operators))"

definition peek_operator :: "Token list \<Rightarrow> error + Token" where
  "peek_operator shy_operators =
     (case shy_operators of [] \<Rightarrow> Inl OperatorsStackEmpty | token # rest \<Rightarrow> Inr token)"

definition pop_operator :: "Token list \<Rightarrow> error + Token \<times> Token list" where
  "pop_operator shy_operators =
     (case peek_operator shy_operators of
        Inl e \<Rightarrow> Inl e
      | Inr token \<Rightarrow> Inr (token, tl shy_operators))"

definition push_value :: "double \<Rightarrow> double list \<Rightarrow> error + double list" where
  "push_value v shy_values =
     (if length shy_values \<ge> STACK_SIZE_SHY_VALUES then Inl ValuesStackOverflow
      else Inr (v # shy_values))"

definition pop_value :: "double list \<Rightarrow> error + double \<times> double list" where
  "pop_value shy_values =
     (case shy_values of [] \<Rightarrow> Inl ValuesStackEmpty | v # rest \<Rightarrow> Inr (v, rest))"

subsection \<open>The evaluator\<close>

text \<open>
  \<^verbatim>\<open>evaluate\<close> pops the right operand before it looks at the operator, so an empty value
  stack is reported before an invalid token type.
\<close>

definition evaluate :: "Token \<Rightarrow> double list \<Rightarrow> error + double \<times> double list" where
  "evaluate operator shy_values =
     (case pop_value shy_values of
        Inl e \<Rightarrow> Inl e
      | Inr (operand, vs) \<Rightarrow>
          (case type operator of
             TOKEN_PLUS \<Rightarrow>
               (case pop_value vs of Inl e \<Rightarrow> Inl e | Inr (l, vs') \<Rightarrow> Inr (d_add l operand, vs'))
           | TOKEN_MINUS \<Rightarrow>
               (case pop_value vs of Inl e \<Rightarrow> Inl e | Inr (l, vs') \<Rightarrow> Inr (d_sub l operand, vs'))
           | TOKEN_UMINUS \<Rightarrow> Inr (d_neg operand, vs)
           | TOKEN_STAR \<Rightarrow>
               (case pop_value vs of Inl e \<Rightarrow> Inl e | Inr (l, vs') \<Rightarrow> Inr (d_mul l operand, vs'))
           | TOKEN_SLASH \<Rightarrow>
               (case pop_value vs of Inl e \<Rightarrow> Inl e | Inr (l, vs') \<Rightarrow> Inr (d_div l operand, vs'))
           | _ \<Rightarrow> Inl (InvalidTokenType (start_at operator) (end_at operator))))"

text \<open>\<^verbatim>\<open>push_value(evaluate(operator))\<close>, for an operator that has been popped.\<close>

definition reduce :: "Token \<Rightarrow> double list \<Rightarrow> error + double list" where
  "reduce operator shy_values =
     (case evaluate operator shy_values of
        Inl e \<Rightarrow> Inl e
      | Inr (v, vs) \<Rightarrow> push_value v vs)"

text \<open>
  The loop of an operator token:
  \<^verbatim>\<open>while (shy_operators_count > 0 && peek_operator().type != TOKEN_LEFT_PAREN
  && TOKEN_TYPE_PRECEDENCE[peek_operator().type] >= precedence) push_value(evaluate(pop_operator()));\<close>
\<close>

fun pop_while_precedence ::
    "int \<Rightarrow> Token list \<Rightarrow> double list \<Rightarrow> error + Token list \<times> double list" where
  "pop_while_precedence precedence [] vs = Inr ([], vs)"
| "pop_while_precedence precedence (tok # ops) vs =
     (if type tok \<noteq> TOKEN_LEFT_PAREN \<and> TOKEN_TYPE_PRECEDENCE (type tok) \<ge> precedence
      then (case reduce tok vs of
              Inl e \<Rightarrow> Inl e
            | Inr vs' \<Rightarrow> pop_while_precedence precedence ops vs')
      else Inr (tok # ops, vs))"

text \<open>
  The loop of a right parenthesis:
  \<^verbatim>\<open>while (shy_operators_count > 0 && peek_operator().type != TOKEN_LEFT_PAREN)
  push_value(evaluate(pop_operator()));\<close>
\<close>

fun pop_until_left_paren ::
    "Token list \<Rightarrow> double list \<Rightarrow> error + Token list \<times> double list" where
  "pop_until_left_paren [] vs = Inr ([], vs)"
| "pop_until_left_paren (tok # ops) vs =
     (if type tok \<noteq> TOKEN_LEFT_PAREN
      then (case reduce tok vs of
              Inl e \<Rightarrow> Inl e
            | Inr vs' \<Rightarrow> pop_until_left_paren ops vs')
      else Inr (tok # ops, vs))"

text \<open>One turn of the main loop of \<^verbatim>\<open>eval_by_shunting_yard\<close>, for the token read.\<close>

definition eval_token ::
    "Token \<Rightarrow> Token list \<Rightarrow> double list \<Rightarrow> error + Token list \<times> double list" where
  "eval_token token ops vs =
     (if type token = TOKEN_NUMBER then
        (case push_value (literal token) vs of Inl e \<Rightarrow> Inl e | Inr vs' \<Rightarrow> Inr (ops, vs'))
      else
        (let precedence = TOKEN_TYPE_PRECEDENCE (type token) in
         case (if precedence > 0 then
                 (case pop_while_precedence precedence ops vs of
                    Inl e \<Rightarrow> Inl e
                  | Inr (ops1, vs1) \<Rightarrow>
                      (case push_operator token ops1 of
                         Inl e \<Rightarrow> Inl e
                       | Inr ops2 \<Rightarrow> Inr (ops2, vs1)))
               else Inr (ops, vs)) of
           Inl e \<Rightarrow> Inl e
         | Inr (ops3, vs3) \<Rightarrow>
             if type token = TOKEN_LEFT_PAREN then
               (case push_operator token ops3 of Inl e \<Rightarrow> Inl e | Inr ops4 \<Rightarrow> Inr (ops4, vs3))
             else if type token = TOKEN_RIGHT_PAREN then
               (case pop_until_left_paren ops3 vs3 of
                  Inl e \<Rightarrow> Inl e
                | Inr (ops4, vs4) \<Rightarrow>
                    if length ops4 = 0 then Inl (MismatchedRightParen (start_at token))
                    else (case pop_operator ops4 of
                            Inl e \<Rightarrow> Inl e
                          | Inr (paren, ops5) \<Rightarrow> Inr (ops5, vs4)))
             else Inr (ops3, vs3)))"

fun eval_tokens ::
    "Token list \<Rightarrow> Token list \<Rightarrow> double list \<Rightarrow> error + Token list \<times> double list" where
  "eval_tokens [] ops vs = Inr (ops, vs)"
| "eval_tokens (token # rest) ops vs =
     (case eval_token token ops vs of
        Inl e \<Rightarrow> Inl e
      | Inr (ops', vs') \<Rightarrow> eval_tokens rest ops' vs')"

text \<open>
  The loop after the tokens:
  \<^verbatim>\<open>while (shy_operators_count > 0) { Token operator = pop_operator(); ... }\<close>
\<close>

fun drain_operators ::
    "Token list \<Rightarrow> double list \<Rightarrow> error + Token list \<times> double list" where
  "drain_operators [] vs = Inr ([], vs)"
| "drain_operators (operator # ops) vs =
     (if type operator = TOKEN_LEFT_PAREN then Inl (MismatchedLeftParen (start_at operator))
      else (case reduce operator vs of
              Inl e \<Rightarrow> Inl e
            | Inr vs' \<Rightarrow> drain_operators ops vs'))"

text \<open>
  \<^verbatim>\<open>eval_by_shunting_yard\<close> from given contents of the two global stacks. It returns the
  result together with the two stacks as the call leaves them.
\<close>

definition eval_by_shunting_yard ::
    "Token list \<Rightarrow> Token list \<Rightarrow> double list \<Rightarrow> error + double \<times> Token list \<times> double list" where
  "eval_by_shunting_yard tks ops vs =
     (case eval_tokens tks ops vs of
        Inl e \<Rightarrow> Inl e
      | Inr (ops1, vs1) \<Rightarrow>
          (case drain_operators ops1 vs1 of
             Inl e \<Rightarrow> Inl e
           | Inr (ops2, vs2) \<Rightarrow>
               if length vs2 \<noteq> 1 then Inl CannotEvaluate
               else (case pop_value vs2 of
                       Inl e \<Rightarrow> Inl e
                     | Inr (result, vs3) \<Rightarrow> Inr (result, ops2, vs3))))"

text \<open>
  \<^verbatim>\<open>process_file\<close> without the reading and printing: the scanner, then the evaluator on
  the stacks as the program starts with them, both empty.
\<close>

definition process_line :: "string \<Rightarrow> error + double" where
  "process_line src =
     (case scanner_execute src of
        Inl e \<Rightarrow> Inl e
      | Inr tks \<Rightarrow>
          (case eval_by_shunting_yard tks [] [] of
             Inl e \<Rightarrow> Inl e
           | Inr (result, ops, vs) \<Rightarrow> Inr result))"

section \<open>Definitions for the statements\<close>

subsection \<open>Where a number ends\<close>

text \<open>
  Where the two digit loops of \<^verbatim>\<open>scanner_number\<close> stop, read off the source: after the
  longest run of digits from \<open>i\<close> on, and after an optional \<open>.\<close> with a digit behind it
  and the run of digits that follows.
\<close>

definition digits_end :: "string \<Rightarrow> nat \<Rightarrow> nat" where
  "digits_end src i = i + length (takeWhile IS_DIGIT (drop i src))"

definition number_end :: "string \<Rightarrow> nat \<Rightarrow> nat" where
  "number_end src i =
     (let j = digits_end src i in
      if char_at src j = CHR ''.'' \<and> IS_DIGIT (char_at src (j + 1))
      then digits_end src (j + 1) else j)"

subsection \<open>Operator tokens\<close>

fun is_operator :: "TokenType \<Rightarrow> bool" where
  "is_operator TOKEN_UMINUS = True"
| "is_operator TOKEN_STAR = True"
| "is_operator TOKEN_SLASH = True"
| "is_operator TOKEN_PLUS = True"
| "is_operator TOKEN_MINUS = True"
| "is_operator ty = False"

text \<open>
  The spec's words for an operator token of precedence \<open>p\<close>: the operators popped are
  the longest run from the top of the stack that are no left parenthesis and have a
  precedence of at least \<open>p\<close>; they are reduced in that order.
\<close>

definition binds_at_least :: "int \<Rightarrow> Token \<Rightarrow> bool" where
  "binds_at_least p t = (type t \<noteq> TOKEN_LEFT_PAREN \<and> TOKEN_TYPE_PRECEDENCE (type t) \<ge> p)"

fun reduce_all :: "Token list \<Rightarrow> double list \<Rightarrow> error + double list" where
  "reduce_all [] vs = Inr vs"
| "reduce_all (t # ts) vs =
     (case reduce t vs of Inl e \<Rightarrow> Inl e | Inr vs' \<Rightarrow> reduce_all ts vs')"

text \<open>A token of a given type at a given offset, for the examples.\<close>

definition tk :: "TokenType \<Rightarrow> int \<Rightarrow> Token" where
  "tk ty i = \<lparr>type = ty, literal = DZero False, start_at = i, end_at = i\<rparr>"

definition number_token :: "double \<Rightarrow> int \<Rightarrow> int \<Rightarrow> Token" where
  "number_token v i j = \<lparr>type = TOKEN_NUMBER, literal = v, start_at = i, end_at = j\<rparr>"

subsection \<open>Tokens and the source\<close>

text \<open>The characters of the source from offset \<open>a\<close> to offset \<open>b\<close>, both included.\<close>

definition slice :: "string \<Rightarrow> int \<Rightarrow> int \<Rightarrow> string" where
  "slice src a b = take (nat (b - a + 1)) (drop (nat a) src)"

text \<open>A run of digits, optionally followed by \<open>.\<close> and another run of digits.\<close>

definition is_number_literal :: "string \<Rightarrow> bool" where
  "is_number_literal s =
     (takeWhile IS_DIGIT s \<noteq> []
      \<and> (case dropWhile IS_DIGIT s of
            [] \<Rightarrow> True
          | c # fp \<Rightarrow> c = CHR ''.'' \<and> fp \<noteq> [] \<and> list_all IS_DIGIT fp))"

text \<open>The character of a token that is not a number.\<close>

fun token_char :: "TokenType \<Rightarrow> char option" where
  "token_char TOKEN_UMINUS = Some CHR ''-''"
| "token_char TOKEN_STAR = Some CHR ''*''"
| "token_char TOKEN_SLASH = Some CHR ''/''"
| "token_char TOKEN_PLUS = Some CHR ''+''"
| "token_char TOKEN_MINUS = Some CHR ''-''"
| "token_char TOKEN_NUMBER = None"
| "token_char TOKEN_LEFT_PAREN = Some CHR ''(''"
| "token_char TOKEN_RIGHT_PAREN = Some CHR '')''"

text \<open>
  What a token of the scanner has to do with the source: its span lies in the source; a
  number starts where its span starts, ends where the digit loops stop, and its text is
  a number literal; any other token is one character wide, the character of its type.
\<close>

definition token_matches :: "string \<Rightarrow> Token \<Rightarrow> bool" where
  "token_matches src t =
     (0 \<le> start_at t \<and> start_at t \<le> end_at t \<and> end_at t < int (length src)
      \<and> (if type t = TOKEN_NUMBER
          then int (number_end src (nat (start_at t))) = end_at t + 1
               \<and> is_number_literal (slice src (start_at t) (end_at t))
          else end_at t = start_at t
               \<and> token_char (type t) = Some (src ! nat (start_at t))))"

text \<open>
  The spec's rule for \<open>-\<close>, given the tokens emitted so far: a unary minus when there is
  none or the last one is neither a number nor a right parenthesis, a subtraction
  otherwise.
\<close>

definition minus_type :: "Token list \<Rightarrow> TokenType" where
  "minus_type emitted =
     (if emitted = []
         \<or> (type (last emitted) \<noteq> TOKEN_NUMBER \<and> type (last emitted) \<noteq> TOKEN_RIGHT_PAREN)
      then TOKEN_UMINUS else TOKEN_MINUS)"

text \<open>
  The source line: the characters before the first \<^verbatim>\<open>'\0'\<close> or \<^verbatim>\<open>'\n'\<close>, where
  \<^verbatim>\<open>scanner_is_at_end\<close> stops the scanner.
\<close>

definition is_line_char :: "char \<Rightarrow> bool" where
  "is_line_char c = (c \<noteq> CHR 0x00 \<and> c \<noteq> CHR 0x0A)"

definition source_line :: "string \<Rightarrow> string" where
  "source_line src = takeWhile is_line_char src"

text \<open>
  Where the spans lie in the source. The scanner skips spaces between tokens:
  \<open>skip_spaces src i\<close> is the offset of the first character from \<open>i\<close> on that is no space
  (the length of the source if there is none), and \<open>after_previous ts i\<close> is the offset
  right after the span of the token before the \<open>i\<close>-th of \<open>ts\<close>, 0 for the first token.
  The characters that the scanner consumes between two of its states are those that
  \<^verbatim>\<open>scanner_advance\<close> has returned: the ones from the first \<^verbatim>\<open>current\<close> up to the second.
\<close>

definition skip_spaces :: "string \<Rightarrow> nat \<Rightarrow> nat" where
  "skip_spaces src i = i + length (takeWhile (\<lambda>c. c = CHR '' '') (drop i src))"

definition after_previous :: "Token list \<Rightarrow> nat \<Rightarrow> int" where
  "after_previous ts i = (if i = 0 then 0 else end_at (ts ! (i - 1)) + 1)"

definition consumed :: "Scanner \<Rightarrow> Scanner \<Rightarrow> string" where
  "consumed s s' = map (char_at (source s)) [current s ..< current s']"

subsection \<open>Well-formed expressions\<close>

text \<open>
  A well-formed expression, as a tree with its tokens at the nodes: a number, an
  expression in parentheses, a unary minus before a number or a parenthesis, or a chain
  \<open>e b u\<close> of an expression, a binary operator and an operand that is not itself a chain.
  Every sequence of operands and binary operators is such a chain read from the left,
  whatever the precedences. An operand carries at most one unary minus.
\<close>

fun is_binary :: "TokenType \<Rightarrow> bool" where
  "is_binary TOKEN_STAR = True"
| "is_binary TOKEN_SLASH = True"
| "is_binary TOKEN_PLUS = True"
| "is_binary TOKEN_MINUS = True"
| "is_binary ty = False"

datatype expr =
    Num Token
  | Paren Token expr Token
  | Neg Token expr
  | Bin expr Token expr

fun tokens_of :: "expr \<Rightarrow> Token list" where
  "tokens_of (Num n) = [n]"
| "tokens_of (Paren l e r) = l # tokens_of e @ [r]"
| "tokens_of (Neg m a) = m # tokens_of a"
| "tokens_of (Bin e b u) = tokens_of e @ b # tokens_of u"

fun is_atom :: "expr \<Rightarrow> bool" where
  "is_atom (Num n) = True"
| "is_atom (Paren l e r) = True"
| "is_atom e = False"

fun is_chain :: "expr \<Rightarrow> bool" where
  "is_chain (Bin e b u) = True"
| "is_chain e = False"

fun well_formed :: "expr \<Rightarrow> bool" where
  "well_formed (Num n) = (type n = TOKEN_NUMBER)"
| "well_formed (Paren l e r) =
     (type l = TOKEN_LEFT_PAREN \<and> well_formed e \<and> type r = TOKEN_RIGHT_PAREN)"
| "well_formed (Neg m a) = (type m = TOKEN_UMINUS \<and> is_atom a \<and> well_formed a)"
| "well_formed (Bin e b u) =
     (well_formed e \<and> is_binary (type b) \<and> \<not> is_chain u \<and> well_formed u)"

text \<open>
  For the operators that lie on the stack over the nearest left parenthesis: how many
  of them take two values, whether all of them are operators, and whether the stack
  under them is empty or starts with a left parenthesis.
\<close>

definition binary_count :: "Token list \<Rightarrow> nat" where
  "binary_count ops = length (filter (\<lambda>t. is_binary (type t)) ops)"

definition all_operators :: "Token list \<Rightarrow> bool" where
  "all_operators ops = list_all (\<lambda>t. is_operator (type t)) ops"

definition on_paren :: "Token list \<Rightarrow> bool" where
  "on_paren ops = (case ops of [] \<Rightarrow> True | t # rest \<Rightarrow> type t = TOKEN_LEFT_PAREN)"

text \<open>The two errors of a full stack.\<close>

definition overflowed :: "error + 'a \<Rightarrow> bool" where
  "overflowed r = (r = Inl OperatorsStackOverflow \<or> r = Inl ValuesStackOverflow)"

text \<open>
  What the tokens of an expression do to the two stacks, unless a stack overflows: a
  number or a parenthesis leaves the operators as they were and pushes one value; an
  operand may leave its unary minus on the operators; an expression leaves operators
  over the stack it started on, with one value more than they need.
\<close>

definition pushes_one_value :: "expr \<Rightarrow> bool" where
  "pushes_one_value e =
     (\<forall>ops vs. (\<exists>v. eval_tokens (tokens_of e) ops vs = Inr (ops, v # vs))
               \<or> overflowed (eval_tokens (tokens_of e) ops vs))"

definition extends_pending :: "expr \<Rightarrow> bool" where
  "extends_pending e =
     (\<forall>ops base ws vs. all_operators ops \<longrightarrow> (ops = [] \<or> is_binary (type (hd ops)))
         \<longrightarrow> on_paren base \<longrightarrow> length ws = binary_count ops
         \<longrightarrow> (\<exists>ops' v. eval_tokens (tokens_of e) (ops @ base) (ws @ vs)
                           = Inr (ops' @ base, v # ws @ vs)
                  \<and> all_operators ops' \<and> binary_count ops' = binary_count ops)
              \<or> overflowed (eval_tokens (tokens_of e) (ops @ base) (ws @ vs)))"

definition leaves_pending :: "expr \<Rightarrow> bool" where
  "leaves_pending e =
     (\<forall>base vs. on_paren base
         \<longrightarrow> (\<exists>ops' ws'. eval_tokens (tokens_of e) base vs = Inr (ops' @ base, ws' @ vs)
                  \<and> all_operators ops' \<and> length ws' = Suc (binary_count ops'))
              \<or> overflowed (eval_tokens (tokens_of e) base vs))"

text \<open>
  The number 5 in \<open>n\<close> pairs of parentheses, with the spans that the scanner gives the
  tokens of the line written so from offset \<open>i\<close> on.
\<close>

primrec deep :: "nat \<Rightarrow> int \<Rightarrow> expr" where
  "deep 0 i = Num (number_token (DFinite 5) i i)"
| "deep (Suc n) i =
     Paren (tk TOKEN_LEFT_PAREN i) (deep n (i + 1)) (tk TOKEN_RIGHT_PAREN (i + 2 * int n + 2))"

text \<open>The tokens that the loop of \<^verbatim>\<open>scanner_execute\<close> returns from a given state.\<close>

definition lex_from :: "Scanner \<Rightarrow> error + Token list" where
  "lex_from sc = (case scanner_loop sc of Inl e \<Rightarrow> Inl e | Inr sc' \<Rightarrow> Inr (tokens sc'))"

text \<open>The expression of the line \<open>-(2 + 3) * -4\<close>.\<close>

definition sample_expression :: expr where
  "sample_expression =
     Bin (Neg (tk TOKEN_UMINUS 0)
            (Paren (tk TOKEN_LEFT_PAREN 1)
               (Bin (Num (number_token (DFinite 2) 2 2)) (tk TOKEN_PLUS 4)
                    (Num (number_token (DFinite 3) 6 6)))
               (tk TOKEN_RIGHT_PAREN 7)))
         (tk TOKEN_STAR 9)
         (Neg (tk TOKEN_UMINUS 11) (Num (number_token (DFinite 4) 12 12)))"

section \<open>Properties\<close>

subsection \<open>The digit loops in closed form\<close>

lemma digits_end_step:
  "digits_end src i = (if IS_DIGIT (char_at src i) then digits_end src (i + 1) else i)"
proof (cases "i < length src")
  case True
  then have "drop i src = src ! i # drop (Suc i) src"
    by (simp add: Cons_nth_drop_Suc)
  with True show ?thesis
    by (simp add: digits_end_def char_at_def)
next
  case False
  then have "\<not> IS_DIGIT (char_at src i)"
    using IS_DIGIT_in_source by blast
  with False show ?thesis
    by (simp add: digits_end_def)
qed

lemma scanner_digits_eq:
  "scanner_digits sc = sc\<lparr>current := digits_end (source sc) (current sc)\<rparr>"
proof (induction sc rule: scanner_digits.induct)
  case (1 sc)
  show ?case
  proof (cases "IS_DIGIT (scanner_peek sc)")
    case True
    then have "scanner_digits sc = scanner_digits (snd (scanner_advance sc))"
      by (subst scanner_digits.simps) simp
    also have "\<dots> = sc\<lparr>current := digits_end (source sc) (current sc + 1)\<rparr>"
      using 1 [OF True] by (simp add: scanner_advance_def)
    also have "digits_end (source sc) (current sc + 1) = digits_end (source sc) (current sc)"
      using True by (subst (2) digits_end_step) (simp add: scanner_peek_def)
    finally show ?thesis .
  next
    case False
    then have "scanner_digits sc = sc"
      by (subst scanner_digits.simps) simp
    moreover have "digits_end (source sc) (current sc) = current sc"
      using False by (subst digits_end_step) (simp add: scanner_peek_def)
    ultimately show ?thesis by simp
  qed
qed

lemma scanner_number_eq:
  "scanner_number sc =
     sc\<lparr>current := number_end (source sc) (current sc),
        tokens := tokens sc @
          [\<lparr>type = TOKEN_NUMBER,
            literal = atof (memcpy_source (source sc) (start sc) 2),
            start_at = int (start sc),
            end_at = int (number_end (source sc) (current sc)) - 1\<rparr>]\<rparr>"
  by (simp add: scanner_number_def scanner_digits_eq number_end_def Let_def scanner_peek_def
      scanner_peek_next_def scanner_advance_def scanner_add_token_def)

subsection \<open>Running the program on a given line\<close>

text \<open>
  The equations that let the simplifier run the scanner and the evaluator on a concrete
  line. The scanner's number rule is the closed form \<open>scanner_number_eq\<close>.
\<close>

lemmas scan_eval =
  scanner_execute_def scanner_init_def scanner_loop.simps scanner_is_at_end_def char_at_def
  scanner_scan_token_def scanner_advance_def scanner_number_eq number_end_def digits_end_def
  scanner_add_token_def IS_DIGIT_def atof_def memcpy_source_def digits_value_def
  digit_value_def mk_finite_def Let_def

lemmas shy_eval =
  process_line_def eval_by_shunting_yard_def eval_token_def push_operator_def pop_operator_def
  peek_operator_def push_value_def pop_value_def reduce_def evaluate_def
  STACK_SIZE_SHY_OPERATORS_def STACK_SIZE_SHY_VALUES_def d_sub_def

subsection \<open>The literal of a number token\<close>

text \<open>
  The literal of a number token is \<^verbatim>\<open>atof\<close> of the two characters of the buffer from the
  start of the token, whatever the length of the token: \<^verbatim>\<open>scanner_number\<close> sets its local
  \<^verbatim>\<open>end_at\<close> to \<^verbatim>\<open>token->start_at + 1\<close>, not to \<^verbatim>\<open>token->end_at\<close>.
\<close>

lemma scanner_number_literal:
  "literal (last (tokens (scanner_number sc))) =
     atof [char_at (source sc) (start sc), char_at (source sc) (start sc + 1)]"
  by (simp add: scanner_number_eq memcpy_source_def upt_rec)

text \<open>
  C1: the value of a number token should be the decimal value of the characters of its
  span. On the line \<open>100\<close> the scanner gives one number token that spans the three
  characters, whose decimal value \<^verbatim>\<open>atof\<close> gives as 100, but the literal stored is 10; on
  \<open>3.5\<close> the token spans the three characters, whose value is 7/2, but the literal is 3.
\<close>

theorem number_literal_of_long_token:
  "scanner_execute ''100'' =
     Inr [\<lparr>type = TOKEN_NUMBER, literal = DFinite 10, start_at = 0, end_at = 2\<rparr>]
   \<and> atof ''100'' = DFinite 100
   \<and> scanner_execute ''3.5'' =
     Inr [\<lparr>type = TOKEN_NUMBER, literal = DFinite 3, start_at = 0, end_at = 2\<rparr>]
   \<and> atof ''3.5'' = DFinite (7 / 2)"
  by (simp add: scan_eval)

subsection \<open>The tokens of the scanner\<close>

lemma digits_end_le: "i \<le> length src \<Longrightarrow> digits_end src i \<le> length src"
proof -
  assume a: "i \<le> length src"
  have "length (takeWhile IS_DIGIT (drop i src)) \<le> length (drop i src)"
    by (rule length_takeWhile_le)
  with a show ?thesis by (simp add: digits_end_def)
qed

lemma digits_end_ge: "i \<le> digits_end src i"
  by (simp add: digits_end_def)

lemma take_digits:
  "take (digits_end src i - i) (drop i src) = takeWhile IS_DIGIT (drop i src)"
  by (simp add: digits_end_def takeWhile_eq_take [symmetric])

lemma drop_digits:
  "drop (digits_end src i) src = dropWhile IS_DIGIT (drop i src)"
  by (simp add: digits_end_def dropWhile_eq_drop add.commute)

lemma not_digit_at_digits_end: "\<not> IS_DIGIT (char_at src (digits_end src i))"
proof
  assume d: "IS_DIGIT (char_at src (digits_end src i))"
  then have lt: "digits_end src i < length src" by (rule IS_DIGIT_in_source)
  then have "drop (digits_end src i) src \<noteq> []" by simp
  then have ne: "dropWhile IS_DIGIT (drop i src) \<noteq> []" by (simp add: drop_digits)
  have "hd (drop (digits_end src i) src) = src ! digits_end src i"
    using lt by (simp add: hd_drop_conv_nth)
  then have "hd (dropWhile IS_DIGIT (drop i src)) = char_at src (digits_end src i)"
    using lt by (simp add: drop_digits char_at_def)
  with hd_dropWhile [OF ne] d show False by simp
qed

lemma is_number_literal_digits:
  "ds \<noteq> [] \<Longrightarrow> list_all IS_DIGIT ds \<Longrightarrow> is_number_literal ds"
  by (cases ds) (auto simp: is_number_literal_def list_all_iff takeWhile_eq_all_conv [THEN iffD2] dropWhile_eq_Nil_conv [THEN iffD2])

lemma is_number_literal_fraction:
  assumes "ds \<noteq> []" "list_all IS_DIGIT ds" "fp \<noteq> []" "list_all IS_DIGIT fp"
  shows "is_number_literal (ds @ CHR ''.'' # fp)"
proof -
  have n: "\<not> IS_DIGIT CHR ''.''" by (simp add: IS_DIGIT_def)
  have t: "takeWhile IS_DIGIT (ds @ CHR ''.'' # fp) = ds"
    using assms(2) n by (simp add: list_all_iff takeWhile_tail)
  have d: "dropWhile IS_DIGIT (ds @ CHR ''.'' # fp) = CHR ''.'' # fp"
    using assms(2) n by (simp add: list_all_iff dropWhile_append2)
  show ?thesis using assms by (simp add: is_number_literal_def t d)
qed

lemma digits_run:
  assumes "IS_DIGIT (char_at src i)"
  shows "i < digits_end src i"
    and "digits_end src (i + 1) = digits_end src i"
    and "takeWhile IS_DIGIT (drop i src) \<noteq> []"
proof -
  show e: "digits_end src (i + 1) = digits_end src i"
    using assms by (subst (2) digits_end_step) simp
  have "i + 1 \<le> digits_end src (i + 1)" by (rule digits_end_ge)
  with e show l: "i < digits_end src i" by simp
  then show "takeWhile IS_DIGIT (drop i src) \<noteq> []"
    by (auto simp: digits_end_def)
qed

lemma list_all_takeWhile: "list_all P (takeWhile P xs)"
  by (induction xs) simp_all

lemma number_end_Suc:
  "IS_DIGIT (char_at src i) \<Longrightarrow> number_end src (Suc i) = number_end src i"
  using digits_run(2) [of src i] by (simp add: number_end_def Let_def)

lemma number_span:
  assumes "IS_DIGIT (char_at src i)"
  shows "i < number_end src i \<and> number_end src i \<le> length src
         \<and> is_number_literal (take (number_end src i - i) (drop i src))"
proof -
  let ?j = "digits_end src i"
  let ?D = "takeWhile IS_DIGIT (drop i src)"
  from assms have il: "i < length src" by (rule IS_DIGIT_in_source)
  have ij: "i < ?j" using assms by (rule digits_run(1))
  have jl: "?j \<le> length src" using il by (simp add: digits_end_le)
  have D: "take (?j - i) (drop i src) = ?D" by (rule take_digits)
  have Dne: "?D \<noteq> []" using assms by (rule digits_run(3))
  have Dall: "list_all IS_DIGIT ?D" by (rule list_all_takeWhile)
  show ?thesis
  proof (cases "char_at src ?j = CHR ''.'' \<and> IS_DIGIT (char_at src (?j + 1))")
    case False
    then have "number_end src i = ?j" by (auto simp: number_end_def Let_def)
    with ij jl D Dne Dall show ?thesis by (simp add: is_number_literal_digits)
  next
    case True
    let ?e = "digits_end src (?j + 1)"
    let ?F = "takeWhile IS_DIGIT (drop (?j + 1) src)"
    from True have ne: "number_end src i = ?e" by (auto simp: number_end_def Let_def)
    from True have j1: "?j + 1 < length src" using IS_DIGIT_in_source by blast
    have je: "?j + 1 < ?e" using True by (simp add: digits_run(1))
    have el: "?e \<le> length src" using j1 by (simp add: digits_end_le)
    have F: "take (?e - (?j + 1)) (drop (?j + 1) src) = ?F" by (rule take_digits)
    have Fne: "?F \<noteq> []" using True by (simp add: digits_run(3))
    have Fall: "list_all IS_DIGIT ?F" by (rule list_all_takeWhile)
    have dot: "src ! ?j = CHR ''.''" using True j1 by (simp add: char_at_def)
    have "?e - i = (?j - i) + (?e - ?j)" using ij je by simp
    then have "take (?e - i) (drop i src)
        = take (?j - i) (drop i src) @ take (?e - ?j) (drop (?j - i) (drop i src))"
      by (simp add: take_add)
    also have "drop (?j - i) (drop i src) = drop ?j src" using ij by simp
    also have "drop ?j src = src ! ?j # drop (?j + 1) src"
      using j1 by (simp add: Cons_nth_drop_Suc)
    also have "take (?e - ?j) (src ! ?j # drop (?j + 1) src)
        = src ! ?j # take (?e - (?j + 1)) (drop (?j + 1) src)"
    proof -
      have "?e - ?j = Suc (?e - (?j + 1))" using je by simp
      then show ?thesis by (simp only: take_Suc_Cons)
    qed
    finally have "take (?e - i) (drop i src) = ?D @ CHR ''.'' # ?F"
      by (simp only: D F dot)
    with ne ij je el Dne Dall Fne Fall show ?thesis
      by (simp add: is_number_literal_fraction)
  qed
qed

text \<open>An invariant of the loop of \<^verbatim>\<open>scanner_execute\<close> holds of its result.\<close>

lemma scanner_loop_invariant:
  assumes "scanner_loop sc = Inr sc'"
    and "P sc"
    and step: "\<And>s s'. P s \<Longrightarrow> \<not> scanner_is_at_end s \<Longrightarrow>
                 scanner_scan_token (s\<lparr>start := current s\<rparr>) = Inr s' \<Longrightarrow> P s'"
  shows "P sc'"
  using assms(1,2)
proof (induction sc rule: scanner_loop.induct)
  case (1 sc)
  show ?case
  proof (cases "scanner_is_at_end sc")
    case True
    with "1.prems" show ?thesis by (subst (asm) scanner_loop.simps) simp
  next
    case False
    with "1.prems"(1) obtain s1 where s1: "scanner_scan_token (sc\<lparr>start := current sc\<rparr>) = Inr s1"
      and l: "scanner_loop s1 = Inr sc'"
      by (subst (asm) scanner_loop.simps) (auto split: sum.splits)
    from step [OF "1.prems"(2) False s1] have "P s1" .
    with "1.IH" [OF False s1 l] show ?thesis .
  qed
qed

text \<open>
  One turn of the loop keeps the source, and either emits nothing (a space) or appends
  one token that starts at the character read and matches the source.
\<close>

lemma scan_token_step:
  assumes e: "\<not> scanner_is_at_end s"
    and t: "scanner_scan_token (s\<lparr>start := current s\<rparr>) = Inr s'"
  shows "source s' = source s
    \<and> (tokens s' = tokens s
       \<or> (\<exists>t. tokens s' = tokens s @ [t] \<and> token_matches (source s) t
              \<and> start_at t = int (current s)
              \<and> (if source s ! current s = CHR ''-'' then type t = minus_type (tokens s)
                  else type t \<noteq> TOKEN_UMINUS \<and> type t \<noteq> TOKEN_MINUS)))"
proof -
  let ?src = "source s" and ?i = "current s"
  let ?c = "?src ! ?i"
  let ?s1 = "s\<lparr>start := ?i, current := ?i + 1\<rparr>"
  from e have lt: "?i < length ?src"
    by (auto simp: scanner_is_at_end_def char_at_def split: if_splits)
  then have c: "char_at ?src ?i = ?c" by (simp add: char_at_def)
  have single: "source s' = ?src \<and> (\<exists>t. tokens s' = tokens s @ [t] \<and> token_matches ?src t
              \<and> start_at t = int ?i \<and> type t = ty)"
    if "s' = scanner_add_token ?s1 ty" and "token_char ty = Some ?c" and "ty \<noteq> TOKEN_NUMBER"
    for ty
    using that lt by (simp add: scanner_add_token_def token_matches_def)
  consider (plus) "?c = CHR ''+''" | (minus) "?c = CHR ''-''" | (star) "?c = CHR ''*''"
    | (slash) "?c = CHR ''/''" | (lparen) "?c = CHR ''(''" | (rparen) "?c = CHR '')''"
    | (space) "?c = CHR '' ''" | (digit) "IS_DIGIT ?c"
    | (other) "?c \<noteq> CHR ''+''" "?c \<noteq> CHR ''-''" "?c \<noteq> CHR ''*''" "?c \<noteq> CHR ''/''"
        "?c \<noteq> CHR ''(''" "?c \<noteq> CHR '')''" "?c \<noteq> CHR '' ''" "\<not> IS_DIGIT ?c"
    by blast
  then show ?thesis
  proof cases
    case plus
    with t c have "s' = scanner_add_token ?s1 TOKEN_PLUS"
      by (simp add: scanner_scan_token_def scanner_advance_def)
    from single [OF this] plus show ?thesis by auto
  next
    case minus
    with t c have "s' = scanner_add_token ?s1 (minus_type (tokens s))"
      by (auto simp: scanner_scan_token_def scanner_advance_def minus_type_def split: if_splits)
    moreover have "token_char (minus_type (tokens s)) = Some ?c"
      and "minus_type (tokens s) \<noteq> TOKEN_NUMBER"
      using minus by (simp_all add: minus_type_def)
    ultimately show ?thesis using single [of "minus_type (tokens s)"] minus by auto
  next
    case star
    with t c have "s' = scanner_add_token ?s1 TOKEN_STAR"
      by (simp add: scanner_scan_token_def scanner_advance_def)
    from single [OF this] star show ?thesis by auto
  next
    case slash
    with t c have "s' = scanner_add_token ?s1 TOKEN_SLASH"
      by (simp add: scanner_scan_token_def scanner_advance_def)
    from single [OF this] slash show ?thesis by auto
  next
    case lparen
    with t c have "s' = scanner_add_token ?s1 TOKEN_LEFT_PAREN"
      by (simp add: scanner_scan_token_def scanner_advance_def)
    from single [OF this] lparen show ?thesis by auto
  next
    case rparen
    with t c have "s' = scanner_add_token ?s1 TOKEN_RIGHT_PAREN"
      by (simp add: scanner_scan_token_def scanner_advance_def)
    from single [OF this] rparen show ?thesis by auto
  next
    case space
    with t c have "s' = ?s1"
      by (simp add: scanner_scan_token_def scanner_advance_def)
    then show ?thesis by simp
  next
    case other
    with t c show ?thesis
      by (simp add: scanner_scan_token_def scanner_advance_def)
  next
    case digit
    then have nd: "?c \<noteq> CHR ''+''" "?c \<noteq> CHR ''-''" "?c \<noteq> CHR ''*''"
      "?c \<noteq> CHR ''/''" "?c \<noteq> CHR ''(''" "?c \<noteq> CHR '')''" "?c \<noteq> CHR '' ''"
      by (auto simp: IS_DIGIT_def)
    from digit c have d: "IS_DIGIT (char_at ?src ?i)" by simp
    let ?e = "number_end ?src ?i"
    let ?t = "\<lparr>type = TOKEN_NUMBER, literal = atof (memcpy_source ?src ?i 2),
               start_at = int ?i, end_at = int ?e - 1\<rparr>"
    from number_span [OF d] have ie: "?i < ?e" and el: "?e \<le> length ?src"
      and nl: "is_number_literal (take (?e - ?i) (drop ?i ?src))" by simp_all
    have "nat (int ?e - 1 - int ?i + 1) = ?e - ?i" using ie by simp
    then have "slice ?src (int ?i) (int ?e - 1) = take (?e - ?i) (drop ?i ?src)"
      by (simp add: slice_def)
    with nl ie el have m: "token_matches ?src ?t"
      by (simp add: token_matches_def)
    from t nd digit c have "s' = scanner_number ?s1"
      by (simp add: scanner_scan_token_def scanner_advance_def)
    then have "source s' = ?src" and "tokens s' = tokens s @ [?t]"
      by (simp_all add: scanner_number_eq number_end_Suc [OF d])
    with m nd show ?thesis by simp
  qed
qed

lemma scanner_execute_tokens_match:
  assumes "scanner_execute src = Inr ts"
  shows "list_all (token_matches src) ts"
proof -
  from assms obtain sc' where l: "scanner_loop (scanner_init src) = Inr sc'" and ts: "ts = tokens sc'"
    by (auto simp: scanner_execute_def split: sum.splits)
  let ?P = "\<lambda>sc. source sc = src \<and> list_all (token_matches src) (tokens sc)"
  have "?P sc'"
  proof (rule scanner_loop_invariant [OF l])
    show "?P (scanner_init src)" by (simp add: scanner_init_def)
  next
    fix s s' assume p: "?P s" and e: "\<not> scanner_is_at_end s"
      and t: "scanner_scan_token (s\<lparr>start := current s\<rparr>) = Inr s'"
    from scan_token_step [OF e t] p show "?P s'" by auto
  qed
  with ts show ?thesis by simp
qed

lemma scanner_execute_minus_types:
  assumes "scanner_execute src = Inr ts"
  shows "\<forall>i<length ts. src ! nat (start_at (ts ! i)) = CHR ''-''
            \<longrightarrow> type (ts ! i) = minus_type (take i ts)"
proof -
  from assms obtain sc' where l: "scanner_loop (scanner_init src) = Inr sc'" and ts: "ts = tokens sc'"
    by (auto simp: scanner_execute_def split: sum.splits)
  let ?Q = "\<lambda>ts. \<forall>i<length ts. src ! nat (start_at (ts ! i)) = CHR ''-''
            \<longrightarrow> type (ts ! i) = minus_type (take i ts)"
  let ?P = "\<lambda>sc. source sc = src \<and> ?Q (tokens sc)"
  have "?P sc'"
  proof (rule scanner_loop_invariant [OF l])
    show "?P (scanner_init src)" by (simp add: scanner_init_def)
  next
    fix s s' assume p: "?P s" and e: "\<not> scanner_is_at_end s"
      and t: "scanner_scan_token (s\<lparr>start := current s\<rparr>) = Inr s'"
    from scan_token_step [OF e t] p have src: "source s' = src" by simp
    from scan_token_step [OF e t] consider (same) "tokens s' = tokens s"
      | (new) t where "tokens s' = tokens s @ [t]" "start_at t = int (current s)"
          "if source s ! current s = CHR ''-'' then type t = minus_type (tokens s)
           else type t \<noteq> TOKEN_UMINUS \<and> type t \<noteq> TOKEN_MINUS"
      by blast
    then have "?Q (tokens s')"
    proof cases
      case same
      with p show ?thesis by simp
    next
      case new
      show ?thesis
      proof (intro allI impI)
        fix i assume i: "i < length (tokens s')"
          and m: "src ! nat (start_at (tokens s' ! i)) = CHR ''-''"
        show "type (tokens s' ! i) = minus_type (take i (tokens s'))"
        proof (cases "i < length (tokens s)")
          case True
          with p m new(1) show ?thesis by (simp add: nth_append)
        next
          case False
          with i new(1) have "i = length (tokens s)" by simp
          with new m p show ?thesis by (simp split: if_splits)
        qed
      qed
    qed
    with src show "?P s'" by simp
  qed
  with ts show ?thesis by simp
qed

lemma number_literal_dot:
  assumes n: "is_number_literal s" and j: "j < length s" and d: "s ! j = CHR ''.''"
  shows "0 < j \<and> j + 1 < length s \<and> IS_DIGIT (s ! (j - 1)) \<and> IS_DIGIT (s ! (j + 1))"
proof -
  let ?D = "takeWhile IS_DIGIT s" and ?R = "dropWhile IS_DIGIT s"
  have len: "length ?D + length ?R = length s"
    by (simp add: length_append [symmetric])
  have nd: "\<not> IS_DIGIT CHR ''.''" by (simp add: IS_DIGIT_def)
  have Dall: "IS_DIGIT (s ! k)" if "k < length ?D" for k
  proof -
    from that have "?D ! k \<in> set ?D" by (rule nth_mem)
    then have "IS_DIGIT (?D ! k)" by (rule set_takeWhileD [THEN conjunct2])
    with that show ?thesis by (simp add: takeWhile_nth)
  qed
  have jD: "\<not> j < length ?D"
  proof
    assume "j < length ?D"
    then have "IS_DIGIT (s ! j)" by (rule Dall)
    with d nd show False by simp
  qed
  with j len have "0 < length ?R" by arith
  then have "?R \<noteq> []" by (rule length_greater_0_conv [THEN iffD1])
  with n obtain fp where R: "?R = CHR ''.'' # fp" and fpne: "fp \<noteq> []"
    and fpall: "list_all IS_DIGIT fp"
    by (auto simp: is_number_literal_def split: list.splits)
  from n have Dne: "?D \<noteq> []" by (simp add: is_number_literal_def)
  have sj: "s ! (length ?D + k) = ?R ! k" for k
  proof -
    have "(?D @ ?R) ! (length ?D + k) = ?R ! k" by (rule nth_append_length_plus)
    then show ?thesis by simp
  qed
  have jeq: "j = length ?D"
  proof (rule ccontr)
    assume ne: "j \<noteq> length ?D"
    define k where "k = j - length ?D - 1"
    from ne jD have k: "j = length ?D + Suc k" by (simp add: k_def)
    with j len R have kf: "k < length fp" by simp
    have "s ! j = fp ! k" using sj [of "Suc k"] k R by simp
    with fpall kf have "IS_DIGIT (s ! j)" by (simp add: list_all_length)
    with d nd show False by simp
  qed
  have 1: "0 < j" using jeq Dne by simp
  have 2: "j + 1 < length s"
    using len R fpne jeq by (cases fp) simp_all
  have 3: "IS_DIGIT (s ! (j - 1))"
    using 1 jeq by (intro Dall) simp
  have 4: "IS_DIGIT (s ! (j + 1))"
  proof -
    have "s ! (j + 1) = ?R ! 1" using sj [of 1] jeq by simp
    also have "\<dots> = fp ! 0" using R by simp
    finally show ?thesis using fpall fpne by (cases fp) simp_all
  qed
  from 1 2 3 4 show ?thesis by simp
qed

lemma slice_nth:
  assumes "0 \<le> a" "a \<le> k" "k \<le> b" "b < int (length src)"
  shows "nat (k - a) < length (slice src a b) \<and> slice src a b ! nat (k - a) = src ! nat k"
proof -
  have l: "length (slice src a b) = nat (b - a + 1)"
    using assms by (auto simp: slice_def)
  have "nat a + nat (k - a) = nat k" using assms by linarith
  then show ?thesis using assms l by (simp add: slice_def)
qed

text \<open>The scanner stays in the source line.\<close>

lemma line_step:
  assumes "i \<le> length (source_line src)" "i < length src" "is_line_char (src ! i)"
  shows "i < length (source_line src)"
proof (rule ccontr)
  assume "\<not> i < length (source_line src)"
  with assms(1) have e: "i = length (takeWhile is_line_char src)" by (simp add: source_line_def)
  with assms(2) have "\<not> is_line_char (src ! i)"
    using nth_length_takeWhile [of is_line_char src] by simp
  with assms(3) show False by simp
qed

lemma line_extends:
  assumes "i \<le> j" and "i \<le> length (source_line src)"
    and "\<And>k. i \<le> k \<Longrightarrow> k < j \<Longrightarrow> k < length src \<and> is_line_char (src ! k)"
  shows "j \<le> length (source_line src)"
  using assms
proof (induction j rule: dec_induct)
  case base
  then show ?case by simp
next
  case (step n)
  then have "n \<le> length (source_line src)" by simp
  moreover from step.prems(2) [of n] step.hyps(1) have "n < length src" "is_line_char (src ! n)"
    by simp_all
  ultimately have "n < length (source_line src)" by (rule line_step)
  then show ?case by simp
qed

lemma number_literal_chars:
  assumes n: "is_number_literal s" and k: "k < length s"
  shows "IS_DIGIT (s ! k) \<or> s ! k = CHR ''.''"
proof -
  let ?D = "takeWhile IS_DIGIT s" and ?R = "dropWhile IS_DIGIT s"
  have len: "length ?D + length ?R = length s"
    by (simp add: length_append [symmetric])
  show ?thesis
  proof (cases "k < length ?D")
    case True
    then have "?D ! k \<in> set ?D" by (rule nth_mem)
    then have "IS_DIGIT (?D ! k)" by (rule set_takeWhileD [THEN conjunct2])
    with True show ?thesis by (simp add: takeWhile_nth)
  next
    case False
    define m where "m = k - length ?D"
    with False have km: "k = length ?D + m" by simp
    with k len have mR: "m < length ?R" by simp
    have "(?D @ ?R) ! (length ?D + m) = ?R ! m" by (rule nth_append_length_plus)
    then have sk: "s ! k = ?R ! m" by (simp add: km)
    from mR have "0 < length ?R" by arith
    then have "?R \<noteq> []" by (rule length_greater_0_conv [THEN iffD1])
    with n obtain fp where R: "?R = CHR ''.'' # fp" and fpall: "list_all IS_DIGIT fp"
      by (auto simp: is_number_literal_def split: list.splits)
    show ?thesis
    proof (cases m)
      case 0
      with sk R show ?thesis by simp
    next
      case (Suc m')
      with mR R have "m' < length fp" by simp
      with fpall have "IS_DIGIT (fp ! m')" by (simp add: list_all_length)
      with sk R Suc show ?thesis by simp
    qed
  qed
qed

lemma digit_is_line_char: "IS_DIGIT c \<or> c = CHR ''.'' \<Longrightarrow> is_line_char c"
  by (auto simp: IS_DIGIT_def is_line_char_def)

lemma number_end_in_line:
  assumes d: "IS_DIGIT (char_at src i)" and i: "i \<le> length (source_line src)"
  shows "number_end src i \<le> length (source_line src)"
proof -
  let ?e = "number_end src i"
  from number_span [OF d] have ie: "i < ?e" and el: "?e \<le> length src"
    and nl: "is_number_literal (take (?e - i) (drop i src))" by simp_all
  show ?thesis
  proof (rule line_extends [OF _ i])
    show "i \<le> ?e" using ie by simp
  next
    fix k assume ik: "i \<le> k" and ke: "k < ?e"
    then have kl: "k < length src" using el by simp
    have "k - i < length (take (?e - i) (drop i src))" using ik ke el by simp
    from number_literal_chars [OF nl this]
    have "IS_DIGIT (src ! k) \<or> src ! k = CHR ''.''" using ik ke el by simp
    then have "is_line_char (src ! k)" by (rule digit_is_line_char)
    with kl show "k < length src \<and> is_line_char (src ! k)" by simp
  qed
qed

lemma scan_token_current:
  assumes e: "\<not> scanner_is_at_end s"
    and t: "scanner_scan_token (s\<lparr>start := current s\<rparr>) = Inr s'"
  shows "current s' = (if IS_DIGIT (source s ! current s)
                       then number_end (source s) (current s) else Suc (current s))"
proof -
  let ?src = "source s" and ?i = "current s"
  let ?c = "?src ! ?i"
  from e have lt: "?i < length ?src"
    by (auto simp: scanner_is_at_end_def char_at_def split: if_splits)
  then have c: "char_at ?src ?i = ?c" by (simp add: char_at_def)
  show ?thesis
  proof (cases "IS_DIGIT ?c")
    case True
    then have nd: "?c \<noteq> CHR ''+''" "?c \<noteq> CHR ''-''" "?c \<noteq> CHR ''*''"
      "?c \<noteq> CHR ''/''" "?c \<noteq> CHR ''(''" "?c \<noteq> CHR '')''" "?c \<noteq> CHR '' ''"
      by (auto simp: IS_DIGIT_def)
    from True c have d: "IS_DIGIT (char_at ?src ?i)" by simp
    from t nd True c have "s' = scanner_number (s\<lparr>start := ?i, current := ?i + 1\<rparr>)"
      by (simp add: scanner_scan_token_def scanner_advance_def)
    then show ?thesis using True by (simp add: scanner_number_eq number_end_Suc [OF d])
  next
    case False
    from t c False have "current s' = Suc ?i"
      by (auto simp: scanner_scan_token_def scanner_advance_def scanner_add_token_def
          split: if_splits)
    with False show ?thesis by simp
  qed
qed

lemma not_digit_at_number_end: "\<not> IS_DIGIT (char_at src (number_end src i))"
  by (simp add: number_end_def Let_def not_digit_at_digits_end)

lemma source_line_le: "length (source_line src) \<le> length src"
  by (simp add: source_line_def length_takeWhile_le)

lemma scanner_execute_tokens_in_line:
  assumes "scanner_execute src = Inr ts"
  shows "\<forall>t\<in>set ts. end_at t < int (length (source_line src))"
proof -
  from assms obtain sc' where l: "scanner_loop (scanner_init src) = Inr sc'" and ts: "ts = tokens sc'"
    by (auto simp: scanner_execute_def split: sum.splits)
  let ?L = "length (source_line src)"
  let ?P = "\<lambda>sc. source sc = src \<and> current sc \<le> ?L
              \<and> (\<forall>t\<in>set (tokens sc). end_at t < int (current sc))"
  have "?P sc'"
  proof (rule scanner_loop_invariant [OF l])
    show "?P (scanner_init src)" by (simp add: scanner_init_def)
  next
    fix s s' assume p: "?P s" and e: "\<not> scanner_is_at_end s"
      and t: "scanner_scan_token (s\<lparr>start := current s\<rparr>) = Inr s'"
    let ?i = "current s"
    from p have src: "source s = src" and iL: "?i \<le> ?L"
      and old: "\<forall>t\<in>set (tokens s). end_at t < int ?i" by simp_all
    from e src have lt: "?i < length src" and lc: "is_line_char (src ! ?i)"
      by (auto simp: scanner_is_at_end_def char_at_def is_line_char_def split: if_splits)
    from iL lt lc have i1: "?i < ?L" by (rule line_step)
    have cur: "current s' = (if IS_DIGIT (src ! ?i) then number_end src ?i else Suc ?i)"
      using scan_token_current [OF e t] src by simp
    have gt: "?i < current s'"
    proof (cases "IS_DIGIT (src ! ?i)")
      case True
      with lt have "IS_DIGIT (char_at src ?i)" by (simp add: char_at_def)
      from number_span [OF this] cur True show ?thesis by simp
    next
      case False
      with cur show ?thesis by simp
    qed
    have le: "current s' \<le> ?L"
    proof (cases "IS_DIGIT (src ! ?i)")
      case True
      with lt have "IS_DIGIT (char_at src ?i)" by (simp add: char_at_def)
      from number_end_in_line [OF this iL] cur True show ?thesis by simp
    next
      case False
      with cur i1 show ?thesis by simp
    qed
    from scan_token_step [OF e t] src have src': "source s' = src" by simp
    from scan_token_step [OF e t] src consider (same) "tokens s' = tokens s"
      | (new) t where "tokens s' = tokens s @ [t]" "token_matches src t"
          "start_at t = int ?i"
      by auto
    then have "\<forall>t\<in>set (tokens s'). end_at t < int (current s')"
    proof cases
      case same
      with old gt show ?thesis by auto
    next
      case new
      have "end_at t < int (current s')"
      proof (cases "type t = TOKEN_NUMBER")
        case True
        with new(2,3) have "int (number_end src ?i) = end_at t + 1"
          and nl: "is_number_literal (slice src (int ?i) (end_at t))"
          and se: "int ?i \<le> end_at t" and el: "end_at t < int (length src)"
          by (simp_all add: token_matches_def)
        have "0 < length (slice src (int ?i) (end_at t))"
          using se el lt by (simp add: slice_def)
        from number_literal_chars [OF nl this]
        have "IS_DIGIT (src ! ?i) \<or> src ! ?i = CHR ''.''"
          using se el lt by (simp add: slice_def hd_drop_conv_nth nth_take)
        moreover have "src ! ?i \<noteq> CHR ''.''"
        proof
          assume dot: "src ! ?i = CHR ''.''"
          then have "\<not> IS_DIGIT (src ! ?i)" by (simp add: IS_DIGIT_def)
          with cur have "current s' = Suc ?i" by simp
          moreover from t dot lt src have "scanner_scan_token (s\<lparr>start := ?i\<rparr>)
              = Inl (UnexpectedCharacter CHR ''.'' ?i)"
            by (simp add: scanner_scan_token_def scanner_advance_def char_at_def IS_DIGIT_def)
          ultimately show False using t by simp
        qed
        ultimately have "IS_DIGIT (src ! ?i)" by simp
        with cur \<open>int (number_end src ?i) = end_at t + 1\<close> show ?thesis by simp
      next
        case False
        with new(2,3) have "end_at t = int ?i" by (simp add: token_matches_def)
        with gt show ?thesis by simp
      qed
      with new(1) old gt show ?thesis by auto
    qed
    with src' le show "?P s'" by simp
  qed
  with ts show ?thesis by auto
qed

lemma slice_source_line:
  assumes "0 \<le> a" "a \<le> b" "b < int (length (source_line src))"
  shows "slice (source_line src) a b = slice src a b"
proof -
  let ?L = "length (takeWhile is_line_char src)"
  have L: "source_line src = take ?L src"
    unfolding source_line_def by (rule takeWhile_eq_take)
  have "b < int ?L" using assms(3) by (simp only: source_line_def)
  with assms(1,2) have "min (nat (b - a + 1)) (?L - nat a) = nat (b - a + 1)"
    by linarith
  then have "take (nat (b - a + 1)) (drop (nat a) (take ?L src))
      = take (nat (b - a + 1)) (drop (nat a) src)"
    by (simp only: drop_take take_take)
  then show ?thesis
    by (simp only: slice_def L)
qed

text \<open>
  One turn of the loop consumes one space and emits nothing, or emits one token that
  starts at the first character consumed and ends at the last.
\<close>

lemma scan_token_consumed:
  assumes e: "\<not> scanner_is_at_end s"
    and t: "scanner_scan_token (s\<lparr>start := current s\<rparr>) = Inr s'"
  shows "current s < current s' \<and> current s' \<le> length (source s)
    \<and> ((tokens s' = tokens s \<and> source s ! current s = CHR '' ''
         \<and> current s' = Suc (current s))
       \<or> (\<exists>t. tokens s' = tokens s @ [t] \<and> start_at t = int (current s)
              \<and> end_at t = int (current s') - 1 \<and> source s ! current s \<noteq> CHR '' ''))"
proof -
  let ?src = "source s" and ?i = "current s"
  let ?c = "?src ! ?i"
  let ?s1 = "s\<lparr>start := ?i, current := ?i + 1\<rparr>"
  from e have lt: "?i < length ?src"
    by (auto simp: scanner_is_at_end_def char_at_def split: if_splits)
  then have c: "char_at ?src ?i = ?c" by (simp add: char_at_def)
  have single: ?thesis if "s' = scanner_add_token ?s1 ty" and "?c \<noteq> CHR '' ''" for ty
    using that lt by (simp add: scanner_add_token_def)
  consider (plus) "?c = CHR ''+''" | (minus) "?c = CHR ''-''" | (star) "?c = CHR ''*''"
    | (slash) "?c = CHR ''/''" | (lparen) "?c = CHR ''(''" | (rparen) "?c = CHR '')''"
    | (space) "?c = CHR '' ''" | (digit) "IS_DIGIT ?c"
    | (other) "?c \<noteq> CHR ''+''" "?c \<noteq> CHR ''-''" "?c \<noteq> CHR ''*''" "?c \<noteq> CHR ''/''"
        "?c \<noteq> CHR ''(''" "?c \<noteq> CHR '')''" "?c \<noteq> CHR '' ''" "\<not> IS_DIGIT ?c"
    by blast
  then show ?thesis
  proof cases
    case plus
    with t c have "s' = scanner_add_token ?s1 TOKEN_PLUS"
      by (simp add: scanner_scan_token_def scanner_advance_def)
    from single [OF this] plus show ?thesis by simp
  next
    case minus
    with t c have "s' = scanner_add_token ?s1 (minus_type (tokens s))"
      by (auto simp: scanner_scan_token_def scanner_advance_def minus_type_def split: if_splits)
    from single [OF this] minus show ?thesis by simp
  next
    case star
    with t c have "s' = scanner_add_token ?s1 TOKEN_STAR"
      by (simp add: scanner_scan_token_def scanner_advance_def)
    from single [OF this] star show ?thesis by simp
  next
    case slash
    with t c have "s' = scanner_add_token ?s1 TOKEN_SLASH"
      by (simp add: scanner_scan_token_def scanner_advance_def)
    from single [OF this] slash show ?thesis by simp
  next
    case lparen
    with t c have "s' = scanner_add_token ?s1 TOKEN_LEFT_PAREN"
      by (simp add: scanner_scan_token_def scanner_advance_def)
    from single [OF this] lparen show ?thesis by simp
  next
    case rparen
    with t c have "s' = scanner_add_token ?s1 TOKEN_RIGHT_PAREN"
      by (simp add: scanner_scan_token_def scanner_advance_def)
    from single [OF this] rparen show ?thesis by simp
  next
    case space
    with t c have "s' = ?s1"
      by (simp add: scanner_scan_token_def scanner_advance_def)
    with space lt show ?thesis by simp
  next
    case other
    with t c show ?thesis
      by (simp add: scanner_scan_token_def scanner_advance_def)
  next
    case digit
    then have nd: "?c \<noteq> CHR ''+''" "?c \<noteq> CHR ''-''" "?c \<noteq> CHR ''*''"
      "?c \<noteq> CHR ''/''" "?c \<noteq> CHR ''(''" "?c \<noteq> CHR '')''" "?c \<noteq> CHR '' ''"
      by (auto simp: IS_DIGIT_def)
    from digit c have d: "IS_DIGIT (char_at ?src ?i)" by simp
    let ?e = "number_end ?src ?i"
    from number_span [OF d] have ie: "?i < ?e" and el: "?e \<le> length ?src" by simp_all
    from t nd digit c have "s' = scanner_number ?s1"
      by (simp add: scanner_scan_token_def scanner_advance_def)
    then have "current s' = ?e"
      and "tokens s' = tokens s @
          [\<lparr>type = TOKEN_NUMBER, literal = atof (memcpy_source ?src ?i 2),
            start_at = int ?i, end_at = int ?e - 1\<rparr>]"
      by (simp_all add: scanner_number_eq number_end_Suc [OF d])
    with ie el nd show ?thesis by simp
  qed
qed

text \<open>Where \<open>skip_spaces\<close> stops.\<close>

lemma skip_spaces_eq:
  assumes "a \<le> c" "c \<le> length src"
    and sp: "\<And>k. a \<le> k \<Longrightarrow> k < c \<Longrightarrow> src ! k = CHR '' ''"
    and stop: "c < length src \<Longrightarrow> src ! c \<noteq> CHR '' ''"
  shows "skip_spaces src a = c"
proof -
  have "takeWhile (\<lambda>c. c = CHR '' '') (drop a src) = take (c - a) (drop a src)"
  proof (rule takeWhile_eq_take_P_nth)
    fix i assume "i < c - a" "i < length (drop a src)"
    then show "drop a src ! i = CHR '' ''" using sp [of "a + i"] assms(1,2) by simp
  next
    assume "c - a < length (drop a src)"
    then have "c < length src" using assms(1) by simp
    from stop [OF this] show "drop a src ! (c - a) \<noteq> CHR '' ''" using assms(1,2) by simp
  qed
  then show ?thesis using assms(1,2) by (simp add: skip_spaces_def)
qed

text \<open>The loop of \<^verbatim>\<open>scanner_execute\<close> stops at the end of the source line.\<close>

lemma scanner_loop_at_end: "scanner_loop sc = Inr sc' \<Longrightarrow> scanner_is_at_end sc'"
proof (induction sc rule: scanner_loop.induct)
  case (1 sc)
  show ?case
  proof (cases "scanner_is_at_end sc")
    case True
    with "1.prems" show ?thesis by (subst (asm) scanner_loop.simps) simp
  next
    case False
    with "1.prems" obtain s1 where s1: "scanner_scan_token (sc\<lparr>start := current sc\<rparr>) = Inr s1"
      and l: "scanner_loop s1 = Inr sc'"
      by (subst (asm) scanner_loop.simps) (auto split: sum.splits)
    from "1.IH" [OF False s1 l] show ?thesis .
  qed
qed

lemma scan_token_in_line:
  assumes e: "\<not> scanner_is_at_end s"
    and t: "scanner_scan_token (s\<lparr>start := current s\<rparr>) = Inr s'"
    and iL: "current s \<le> length (source_line (source s))"
  shows "current s' \<le> length (source_line (source s))"
proof -
  let ?src = "source s" and ?i = "current s"
  let ?L = "length (source_line ?src)"
  from e have lt: "?i < length ?src" and lc: "is_line_char (?src ! ?i)"
    by (auto simp: scanner_is_at_end_def char_at_def is_line_char_def split: if_splits)
  from iL lt lc have i1: "?i < ?L" by (rule line_step)
  have cur: "current s' = (if IS_DIGIT (?src ! ?i) then number_end ?src ?i else Suc ?i)"
    using scan_token_current [OF e t] by simp
  show ?thesis
  proof (cases "IS_DIGIT (?src ! ?i)")
    case True
    with lt have "IS_DIGIT (char_at ?src ?i)" by (simp add: char_at_def)
    from number_end_in_line [OF this iL] cur True show ?thesis by simp
  next
    case False
    with cur i1 show ?thesis by simp
  qed
qed

lemma at_end_of_line:
  assumes "scanner_is_at_end sc" and "current sc \<le> length (source_line (source sc))"
  shows "current sc = length (source_line (source sc))"
proof (rule ccontr)
  let ?src = "source sc" and ?i = "current sc"
  assume "?i \<noteq> length (source_line ?src)"
  with assms(2) have lt: "?i < length (takeWhile is_line_char ?src)"
    by (simp add: source_line_def)
  then have "takeWhile is_line_char ?src ! ?i \<in> set (takeWhile is_line_char ?src)"
    by (rule nth_mem)
  then have "is_line_char (takeWhile is_line_char ?src ! ?i)"
    by (rule set_takeWhileD [THEN conjunct2])
  with lt have lc: "is_line_char (?src ! ?i)" by (simp add: takeWhile_nth)
  have "length (takeWhile is_line_char ?src) \<le> length ?src" by (rule length_takeWhile_le)
  with lt have "?i < length ?src" by simp
  with lc assms(1) show False
    by (simp add: scanner_is_at_end_def char_at_def is_line_char_def)
qed

text \<open>
  The tokens tile the line: each starts at the first character that is no space after
  the token before it, and only spaces follow the last.
\<close>

lemma after_previous_append:
  "i \<le> length ts \<Longrightarrow> after_previous (ts @ [t]) i = after_previous ts i"
  by (cases i) (simp_all add: after_previous_def nth_append)

lemma after_previous_last:
  "after_previous (ts @ [t]) (Suc (length ts)) = end_at t + 1"
  by (simp add: after_previous_def)

lemma scanner_execute_spans_follow:
  assumes "scanner_execute src = Inr ts"
  shows "(\<forall>i<length ts. start_at (ts ! i) = int (skip_spaces src (nat (after_previous ts i))))
       \<and> skip_spaces src (nat (after_previous ts (length ts))) = length (source_line src)"
proof -
  from assms obtain sc' where l: "scanner_loop (scanner_init src) = Inr sc'" and ts: "ts = tokens sc'"
    by (auto simp: scanner_execute_def split: sum.splits)
  let ?L = "length (source_line src)"
  let ?A = "\<lambda>ts. nat (after_previous ts (length ts))"
  let ?Q = "\<lambda>ts. \<forall>i<length ts. start_at (ts ! i) = int (skip_spaces src (nat (after_previous ts i)))"
  let ?P = "\<lambda>sc. source sc = src \<and> current sc \<le> ?L \<and> ?Q (tokens sc)
              \<and> ?A (tokens sc) \<le> current sc
              \<and> (\<forall>k. ?A (tokens sc) \<le> k \<and> k < current sc \<longrightarrow> src ! k = CHR '' '')"
  have P: "?P sc'"
  proof (rule scanner_loop_invariant [OF l])
    show "?P (scanner_init src)" by (simp add: scanner_init_def after_previous_def)
  next
    fix s s' assume p: "?P s" and e: "\<not> scanner_is_at_end s"
      and t: "scanner_scan_token (s\<lparr>start := current s\<rparr>) = Inr s'"
    let ?i = "current s"
    from p have src: "source s = src" and iL: "?i \<le> ?L" and q: "?Q (tokens s)"
      and a: "?A (tokens s) \<le> ?i"
      and sp: "\<And>k. ?A (tokens s) \<le> k \<Longrightarrow> k < ?i \<Longrightarrow> src ! k = CHR '' ''" by simp_all
    from scan_token_step [OF e t] src have src': "source s' = src" by simp
    from scan_token_in_line [OF e t] iL src have le: "current s' \<le> ?L" by simp
    from scan_token_consumed [OF e t] src have gt: "?i < current s'"
      and cl: "current s' \<le> length src" by simp_all
    from scan_token_consumed [OF e t] src consider
        (same) "tokens s' = tokens s" "src ! ?i = CHR '' ''" "current s' = Suc ?i"
      | (new) t where "tokens s' = tokens s @ [t]" "start_at t = int ?i"
          "end_at t = int (current s') - 1" "src ! ?i \<noteq> CHR '' ''"
      by auto
    then have "?Q (tokens s') \<and> ?A (tokens s') \<le> current s'
        \<and> (\<forall>k. ?A (tokens s') \<le> k \<and> k < current s' \<longrightarrow> src ! k = CHR '' '')"
    proof cases
      case same
      have "src ! k = CHR '' ''" if "?A (tokens s) \<le> k" "k < Suc ?i" for k
      proof (cases "k = ?i")
        case True
        with same(2) show ?thesis by simp
      next
        case False
        with that have "k < ?i" by simp
        with sp that(1) show ?thesis by simp
      qed
      with same q a show ?thesis by simp
    next
      case new
      let ?n = "length (tokens s)"
      have il: "?i < length src" using gt cl by simp
      have st: "skip_spaces src (?A (tokens s)) = ?i"
        using a _ sp
      proof (rule skip_spaces_eq)
        show "?i \<le> length src" using il by simp
        show "src ! ?i \<noteq> CHR '' ''" by (rule new(4))
      qed
      have Q: "?Q (tokens s')"
      proof (intro allI impI)
        fix j assume j: "j < length (tokens s')"
        show "start_at (tokens s' ! j) = int (skip_spaces src (nat (after_previous (tokens s') j)))"
        proof (cases "j < ?n")
          case True
          with q new(1) show ?thesis by (simp add: nth_append after_previous_append)
        next
          case False
          with j new(1) have "j = ?n" by simp
          with new(1,2) st show ?thesis by (simp add: after_previous_append)
        qed
      qed
      have A: "?A (tokens s') = current s'"
        using new(1,3) by (simp add: after_previous_last)
      from Q A show ?thesis by auto
    qed
    with src' le show "?P s'" by simp
  qed
  from l have "scanner_is_at_end sc'" by (rule scanner_loop_at_end)
  with P have c: "current sc' = ?L" using at_end_of_line [of sc'] by simp
  have "skip_spaces src (?A ts) = ?L"
  proof (rule skip_spaces_eq)
    show "?A ts \<le> ?L" using P c ts by simp
    show "?L \<le> length src" by (rule source_line_le)
    show "src ! k = CHR '' ''" if "?A ts \<le> k" "k < ?L" for k
      using P c ts that by simp
    show "src ! ?L \<noteq> CHR '' ''" if "?L < length src"
    proof -
      from that have "\<not> is_line_char (src ! length (takeWhile is_line_char src))"
        unfolding source_line_def by (rule nth_length_takeWhile)
      then show ?thesis by (auto simp: source_line_def is_line_char_def)
    qed
  qed
  with P ts show ?thesis by simp
qed

lemma consumed_slice:
  assumes "current s \<le> current s'" "current s' \<le> length (source s)"
  shows "slice (source s) (int (current s)) (int (current s') - 1) = consumed s s'"
proof -
  have "take (current s' - current s) (drop (current s) (source s))
      = map (char_at (source s)) [current s ..< current s']"
    using assms by (intro nth_equalityI) (auto simp: char_at_def)
  moreover have "nat (int (current s') - 1 - int (current s) + 1) = current s' - current s"
    by simp
  ultimately show ?thesis by (simp add: slice_def consumed_def)
qed

text \<open>
  C9: for every token the scanner emits, the two offsets of the span are indices into
  the source line with the start not after the end. The token starts at the first
  character that is no space after the span of the token before it (from offset 0 for
  the first token), and after the last token only spaces are left in the line, so the
  spans are fixed by the source. A token that is not a number has its end equal to its
  start and is the character of its type; the span of a number ends where the two digit
  loops stop, before a character that is no digit, and the text of the span, sliced
  from the line or from the whole source, is a number literal. In every turn of the
  scanner's loop that emits a token, the span is from the first to the last character
  consumed in that turn, and slicing the source by the span gives those characters.
\<close>

theorem token_spans_are_exact:
  "scanner_execute src = Inr ts \<Longrightarrow>
   length (source_line src) \<le> length src
   \<and> (\<forall>i<length ts.
        0 \<le> start_at (ts ! i) \<and> start_at (ts ! i) \<le> end_at (ts ! i)
        \<and> end_at (ts ! i) < int (length (source_line src))
        \<and> start_at (ts ! i) = int (skip_spaces src (nat (after_previous ts i)))
        \<and> slice (source_line src) (start_at (ts ! i)) (end_at (ts ! i))
            = slice src (start_at (ts ! i)) (end_at (ts ! i))
        \<and> (if type (ts ! i) = TOKEN_NUMBER
            then int (number_end src (nat (start_at (ts ! i)))) = end_at (ts ! i) + 1
                 \<and> is_number_literal (slice src (start_at (ts ! i)) (end_at (ts ! i)))
                 \<and> \<not> IS_DIGIT (char_at src (nat (end_at (ts ! i) + 1)))
            else end_at (ts ! i) = start_at (ts ! i)
                 \<and> token_char (type (ts ! i)) = Some (src ! nat (start_at (ts ! i)))))
   \<and> skip_spaces src (nat (after_previous ts (length ts))) = length (source_line src)
   \<and> (\<not> scanner_is_at_end s \<and> scanner_scan_token (s\<lparr>start := current s\<rparr>) = Inr s' \<longrightarrow>
        (tokens s' = tokens s \<and> consumed s s' = '' '')
        \<or> (\<exists>t. tokens s' = tokens s @ [t]
               \<and> start_at t = int (current s) \<and> end_at t = int (current s') - 1
               \<and> slice (source s) (start_at t) (end_at t) = consumed s s'))"
proof (intro conjI allI impI)
  show "length (source_line src) \<le> length src" by (rule source_line_le)
next
  assume l: "scanner_execute src = Inr ts"
  from scanner_execute_spans_follow [OF l]
  show "skip_spaces src (nat (after_previous ts (length ts))) = length (source_line src)"
    by simp
next
  fix i assume l: "scanner_execute src = Inr ts" and i: "i < length ts"
  let ?t = "ts ! i"
  from i have t: "?t \<in> set ts" by simp
  from l t have m: "token_matches src ?t"
    using scanner_execute_tokens_match [of src ts] by (simp add: list_all_iff)
  from l t have e: "end_at ?t < int (length (source_line src))"
    using scanner_execute_tokens_in_line [of src ts] by simp
  from m have a: "0 \<le> start_at ?t" and ab: "start_at ?t \<le> end_at ?t"
    by (simp_all add: token_matches_def)
  have n: "\<not> IS_DIGIT (char_at src (nat (end_at ?t + 1)))" if "type ?t = TOKEN_NUMBER"
  proof -
    from m that have "int (number_end src (nat (start_at ?t))) = end_at ?t + 1"
      by (simp add: token_matches_def)
    then have "nat (end_at ?t + 1) = number_end src (nat (start_at ?t))"
      by linarith
    then show ?thesis by (simp only: not_digit_at_number_end not_False_eq_True)
  qed
  show "0 \<le> start_at ?t" by (rule a)
  show "start_at ?t \<le> end_at ?t" by (rule ab)
  show "end_at ?t < int (length (source_line src))" by (rule e)
  show "start_at ?t = int (skip_spaces src (nat (after_previous ts i)))"
    using scanner_execute_spans_follow [OF l] i by simp
  show "slice (source_line src) (start_at ?t) (end_at ?t) = slice src (start_at ?t) (end_at ?t)"
    by (rule slice_source_line [OF a ab e])
  show "if type ?t = TOKEN_NUMBER
        then int (number_end src (nat (start_at ?t))) = end_at ?t + 1
             \<and> is_number_literal (slice src (start_at ?t) (end_at ?t))
             \<and> \<not> IS_DIGIT (char_at src (nat (end_at ?t + 1)))
        else end_at ?t = start_at ?t
             \<and> token_char (type ?t) = Some (src ! nat (start_at ?t))"
    using m n by (simp add: token_matches_def)
next
  assume h: "\<not> scanner_is_at_end s \<and> scanner_scan_token (s\<lparr>start := current s\<rparr>) = Inr s'"
  then have e: "\<not> scanner_is_at_end s"
    and t: "scanner_scan_token (s\<lparr>start := current s\<rparr>) = Inr s'" by simp_all
  from scan_token_consumed [OF e t] have gt: "current s \<le> current s'"
    and cl: "current s' \<le> length (source s)" by simp_all
  from e have lt: "current s < length (source s)"
    by (auto simp: scanner_is_at_end_def char_at_def split: if_splits)
  from scan_token_consumed [OF e t] consider
      (same) "tokens s' = tokens s" "source s ! current s = CHR '' ''" "current s' = Suc (current s)"
    | (new) t where "tokens s' = tokens s @ [t]" "start_at t = int (current s)"
        "end_at t = int (current s') - 1"
    by auto
  then show "(tokens s' = tokens s \<and> consumed s s' = '' '')
        \<or> (\<exists>t. tokens s' = tokens s @ [t]
               \<and> start_at t = int (current s) \<and> end_at t = int (current s') - 1
               \<and> slice (source s) (start_at t) (end_at t) = consumed s s')"
  proof cases
    case same
    with lt show ?thesis by (simp add: consumed_def char_at_def)
  next
    case new
    with consumed_slice [OF gt cl] show ?thesis by simp
  qed
qed

text \<open>A source of two lines: the scanner stops at the end of the first.\<close>

lemma lex_two_lines:
  "scanner_execute ''12 + 3.25\<newline>7'' =
     Inr [number_token (DFinite 12) 0 1, tk TOKEN_PLUS 3, number_token (DFinite 3) 5 8]"
  by (simp add: scan_eval number_token_def tk_def)

text \<open>
  The three tokens of the first line \<open>12 + 3.25\<close>: the spans give back \<open>12\<close>, \<open>+\<close>
  and \<open>3.25\<close>, each token starts after the spaces behind the one before, and the turn
  of the loop at offset 5 consumes \<open>3.25\<close>.
\<close>

theorem token_spans_are_exact_witness:
  "scanner_execute ''12 + 3.25\<newline>7'' =
     Inr [number_token (DFinite 12) 0 1, tk TOKEN_PLUS 3, number_token (DFinite 3) 5 8]
   \<and> source_line ''12 + 3.25\<newline>7'' = ''12 + 3.25''
   \<and> skip_spaces ''12 + 3.25\<newline>7'' 0 = 0
   \<and> skip_spaces ''12 + 3.25\<newline>7'' 2 = 3
   \<and> skip_spaces ''12 + 3.25\<newline>7'' 4 = 5
   \<and> skip_spaces ''12 + 3.25\<newline>7'' 9 = 9
   \<and> number_end ''12 + 3.25\<newline>7'' 5 = 9
   \<and> is_number_literal (slice ''12 + 3.25\<newline>7'' 5 8)
   \<and> slice ''12 + 3.25\<newline>7'' 5 8 = ''3.25''
   \<and> slice ''12 + 3.25\<newline>7'' 0 1 = ''12''
   \<and> token_char TOKEN_PLUS = Some (''12 + 3.25\<newline>7'' ! 3)
   \<and> \<not> scanner_is_at_end
         \<lparr>source = ''12 + 3.25\<newline>7'',
          tokens = [number_token (DFinite 12) 0 1, tk TOKEN_PLUS 3], start = 3, current = 5\<rparr>
   \<and> scanner_scan_token
         \<lparr>source = ''12 + 3.25\<newline>7'',
          tokens = [number_token (DFinite 12) 0 1, tk TOKEN_PLUS 3], start = 5, current = 5\<rparr>
       = Inr \<lparr>source = ''12 + 3.25\<newline>7'',
              tokens = [number_token (DFinite 12) 0 1, tk TOKEN_PLUS 3,
                        number_token (DFinite 3) 5 8], start = 5, current = 9\<rparr>
   \<and> consumed
         \<lparr>source = ''12 + 3.25\<newline>7'',
          tokens = [number_token (DFinite 12) 0 1, tk TOKEN_PLUS 3], start = 3, current = 5\<rparr>
         \<lparr>source = ''12 + 3.25\<newline>7'',
          tokens = [number_token (DFinite 12) 0 1, tk TOKEN_PLUS 3,
                    number_token (DFinite 3) 5 8], start = 5, current = 9\<rparr>
       = ''3.25''"
proof -
  let ?s = "\<lparr>source = ''12 + 3.25\<newline>7'',
          tokens = [number_token (DFinite 12) 0 1, tk TOKEN_PLUS 3], start = 3, current = 5\<rparr>"
  let ?s' = "\<lparr>source = ''12 + 3.25\<newline>7'',
          tokens = [number_token (DFinite 12) 0 1, tk TOKEN_PLUS 3,
                    number_token (DFinite 3) 5 8], start = 5, current = 9\<rparr>"
  note spans = token_spans_are_exact [OF lex_two_lines, of ?s ?s']
  note each = spans [THEN conjunct2, THEN conjunct1, rule_format]
  have step: "\<not> scanner_is_at_end ?s \<and> scanner_scan_token (?s\<lparr>start := current ?s\<rparr>) = Inr ?s'"
    by (simp add: scan_eval number_token_def tk_def)
  from each [of 0] each [of 1] each [of 2] spans step lex_two_lines show ?thesis
    by (simp add: number_token_def tk_def slice_def source_line_def is_line_char_def
        after_previous_def consumed_def char_at_def upt_rec)
qed

text \<open>The tokens of \<open>12 + 3.25\<close>, for the examples.\<close>

lemma lex_12_plus_3_25:
  "scanner_execute ''12 + 3.25'' =
     Inr [number_token (DFinite 12) 0 1, tk TOKEN_PLUS 3, number_token (DFinite 3) 5 8]"
  by (simp add: scan_eval number_token_def tk_def)

text \<open>
  C6: a \<open>.\<close> that lies in the span of a token lies in a number, strictly inside the span,
  with a digit right before it and a digit right after it. The line \<open>3.\<close> fails with the
  parsing error of an unexpected \<open>.\<close> at offset 1, \<open>.5\<close> with that error at offset 0, and
  \<open>3.5\<close> gives one number token.
\<close>

theorem dot_only_inside_number:
  "scanner_execute src = Inr ts \<Longrightarrow> t \<in> set ts \<Longrightarrow> start_at t \<le> k \<Longrightarrow> k \<le> end_at t \<Longrightarrow>
   src ! nat k = CHR ''.'' \<Longrightarrow>
   type t = TOKEN_NUMBER \<and> start_at t < k \<and> k < end_at t
   \<and> IS_DIGIT (src ! nat (k - 1)) \<and> IS_DIGIT (src ! nat (k + 1))
   \<and> scanner_execute ''3.'' = Inl (UnexpectedCharacter CHR ''.'' 1)
   \<and> scanner_execute ''.5'' = Inl (UnexpectedCharacter CHR ''.'' 0)
   \<and> exit_code (UnexpectedCharacter CHR ''.'' 1) = 4
   \<and> scanner_execute ''3.5'' = Inr [number_token (DFinite 3) 0 2]"
proof (intro conjI)
  assume l: "scanner_execute src = Inr ts" and t: "t \<in> set ts"
    and ak: "start_at t \<le> k" and kb: "k \<le> end_at t" and d: "src ! nat k = CHR ''.''"
  let ?a = "start_at t" and ?b = "end_at t"
  from l t have m: "token_matches src t"
    using scanner_execute_tokens_match [of src ts] by (simp add: list_all_iff)
  then have a0: "0 \<le> ?a" and bl: "?b < int (length src)"
    by (simp_all add: token_matches_def)
  show ty: "type t = TOKEN_NUMBER"
  proof (rule ccontr)
    assume "type t \<noteq> TOKEN_NUMBER"
    with m ak kb d have "token_char (type t) = Some CHR ''.''"
      by (simp add: token_matches_def)
    then show False by (cases "type t") simp_all
  qed
  with m have n: "is_number_literal (slice src ?a ?b)"
    by (simp add: token_matches_def)
  have len: "length (slice src ?a ?b) = nat (?b - ?a + 1)"
    using a0 bl by (auto simp: slice_def)
  from slice_nth [OF a0 ak kb bl] d
  have j: "nat (k - ?a) < length (slice src ?a ?b)"
    and sd: "slice src ?a ?b ! nat (k - ?a) = CHR ''.''"
    by simp_all
  from number_literal_dot [OF n j sd]
  have 1: "0 < nat (k - ?a)" and 2: "nat (k - ?a) + 1 < length (slice src ?a ?b)"
    and 3: "IS_DIGIT (slice src ?a ?b ! (nat (k - ?a) - 1))"
    and 4: "IS_DIGIT (slice src ?a ?b ! (nat (k - ?a) + 1))"
    by simp_all
  from 1 show ak': "?a < k" by simp
  from 2 len show kb': "k < ?b" by linarith
  have "nat (k - ?a) - 1 = nat (k - 1 - ?a)" using ak' by simp
  with 3 slice_nth [OF a0 _ _ bl, of "k - 1"] ak' kb
  show "IS_DIGIT (src ! nat (k - 1))" by simp
  have "nat (k - ?a) + 1 = nat (k + 1 - ?a)" using ak by simp
  with 4 slice_nth [OF a0 _ _ bl, of "k + 1"] ak kb'
  show "IS_DIGIT (src ! nat (k + 1))" by simp
next
  show "scanner_execute ''3.'' = Inl (UnexpectedCharacter CHR ''.'' 1)"
    by (simp add: scan_eval)
  show "scanner_execute ''.5'' = Inl (UnexpectedCharacter CHR ''.'' 0)"
    by (simp add: scan_eval)
  show "exit_code (UnexpectedCharacter CHR ''.'' 1) = 4" by simp
  show "scanner_execute ''3.5'' = Inr [number_token (DFinite 3) 0 2]"
    by (simp add: scan_eval number_token_def)
qed

text \<open>The \<open>.\<close> at offset 6 of \<open>12 + 3.25\<close>.\<close>

theorem dot_only_inside_number_witness:
  "scanner_execute ''12 + 3.25'' =
     Inr [number_token (DFinite 12) 0 1, tk TOKEN_PLUS 3, number_token (DFinite 3) 5 8]
   \<and> ''12 + 3.25'' ! 6 = CHR ''.''
   \<and> IS_DIGIT (''12 + 3.25'' ! 5) \<and> IS_DIGIT (''12 + 3.25'' ! 7)"
  using dot_only_inside_number [OF lex_12_plus_3_25, of "number_token (DFinite 3) 5 8" 6]
    lex_12_plus_3_25
  by (simp add: number_token_def)

text \<open>
  C3: every token that the scanner emits for a \<open>-\<close> is a unary minus if no token was
  emitted before it or the token emitted last is neither a number nor a right
  parenthesis, and a subtraction otherwise; and \<^verbatim>\<open>scanner_scan_token\<close> on a \<open>-\<close> always
  emits that token. So \<open>-5 + 3\<close> gives \<open>-2\<close>, \<open>3 - -5\<close> gives 8, \<open>(-5)\<close> gives \<open>-5\<close> and
  \<open>3-5\<close> gives \<open>-2\<close>.
\<close>

theorem minus_classification:
  "scanner_execute src = Inr ts \<Longrightarrow> i < length ts \<Longrightarrow>
   src ! nat (start_at (ts ! i)) = CHR ''-'' \<Longrightarrow>
   type (ts ! i) = minus_type (take i ts)
   \<and> (char_at (source sc) (current sc) = CHR ''-'' \<longrightarrow>
        scanner_scan_token sc =
          Inr (scanner_add_token (sc\<lparr>current := current sc + 1\<rparr>) (minus_type (tokens sc))))
   \<and> process_line ''-5 + 3'' = Inr (DFinite (- 2))
   \<and> process_line ''3 - -5'' = Inr (DFinite 8)
   \<and> process_line ''(-5)'' = Inr (DFinite (- 5))
   \<and> process_line ''3-5'' = Inr (DFinite (- 2))"
proof (intro conjI)
  assume "scanner_execute src = Inr ts" "i < length ts"
    "src ! nat (start_at (ts ! i)) = CHR ''-''"
  then show "type (ts ! i) = minus_type (take i ts)"
    using scanner_execute_minus_types [of src ts] by simp
next
  show "char_at (source sc) (current sc) = CHR ''-'' \<longrightarrow>
        scanner_scan_token sc =
          Inr (scanner_add_token (sc\<lparr>current := current sc + 1\<rparr>) (minus_type (tokens sc)))"
    by (simp add: scanner_scan_token_def scanner_advance_def minus_type_def scanner_add_token_def)
  show "process_line ''-5 + 3'' = Inr (DFinite (- 2))"
    by (simp add: scan_eval shy_eval)
  show "process_line ''3 - -5'' = Inr (DFinite 8)"
    by (simp add: scan_eval shy_eval)
  show "process_line ''(-5)'' = Inr (DFinite (- 5))"
    by (simp add: scan_eval shy_eval)
  show "process_line ''3-5'' = Inr (DFinite (- 2))"
    by (simp add: scan_eval shy_eval)
qed

text \<open>The tokens of \<open>3 - -5\<close>, for the example.\<close>

lemma lex_3_minus_minus_5:
  "scanner_execute ''3 - -5'' =
     Inr [number_token (DFinite 3) 0 0, tk TOKEN_MINUS 2, tk TOKEN_UMINUS 4,
          number_token (DFinite 5) 5 5]"
  by (simp add: scan_eval number_token_def tk_def)

text \<open>The two \<open>-\<close> of \<open>3 - -5\<close>: the first is a subtraction, the second a unary minus.\<close>

theorem minus_classification_witness:
  "scanner_execute ''3 - -5'' =
     Inr [number_token (DFinite 3) 0 0, tk TOKEN_MINUS 2, tk TOKEN_UMINUS 4,
          number_token (DFinite 5) 5 5]
   \<and> ''3 - -5'' ! 2 = CHR ''-'' \<and> ''3 - -5'' ! 4 = CHR ''-''
   \<and> minus_type [number_token (DFinite 3) 0 0] = TOKEN_MINUS
   \<and> minus_type [number_token (DFinite 3) 0 0, tk TOKEN_MINUS 2] = TOKEN_UMINUS
   \<and> minus_type [] = TOKEN_UMINUS"
  using minus_classification [OF lex_3_minus_minus_5, of 1 "scanner_init ''-''"]
    minus_classification [OF lex_3_minus_minus_5, of 2 "scanner_init ''-''"]
    lex_3_minus_minus_5
  by (simp add: number_token_def tk_def minus_type_def)

subsection \<open>Operator tokens\<close>

lemma pop_while_precedence_eq:
  "pop_while_precedence p ops vs =
     (case reduce_all (takeWhile (binds_at_least p) ops) vs of
        Inl e \<Rightarrow> Inl e
      | Inr vs' \<Rightarrow> Inr (dropWhile (binds_at_least p) ops, vs'))"
  by (induction ops arbitrary: vs) (auto simp: binds_at_least_def split: sum.splits)

lemma is_operator_precedence: "is_operator ty \<Longrightarrow> 0 < TOKEN_TYPE_PRECEDENCE ty"
  by (cases ty) simp_all

lemma is_operator_type:
  "is_operator ty \<Longrightarrow> ty \<noteq> TOKEN_NUMBER \<and> ty \<noteq> TOKEN_LEFT_PAREN \<and> ty \<noteq> TOKEN_RIGHT_PAREN"
  by (cases ty) simp_all

lemma eval_token_operator:
  assumes "is_operator (type token)"
  shows "eval_token token ops vs =
     (case pop_while_precedence (TOKEN_TYPE_PRECEDENCE (type token)) ops vs of
        Inl e \<Rightarrow> Inl e
      | Inr (ops1, vs1) \<Rightarrow>
          (case push_operator token ops1 of Inl e \<Rightarrow> Inl e | Inr ops2 \<Rightarrow> Inr (ops2, vs1)))"
  using is_operator_precedence [OF assms] is_operator_type [OF assms]
  by (simp add: eval_token_def Let_def split: sum.splits prod.splits)

text \<open>
  C2: for an operator token (unary minus, multiply, divide, add, subtract) of precedence
  \<open>p\<close>, the evaluator pops and reduces the operators on top of the stack while the stack
  is not empty, its top is no left parenthesis and the top's precedence is at least \<open>p\<close>,
  and then pushes the token. So \<open>8 - 3 - 2\<close> gives 3, \<open>2 + 3 * 4\<close> gives 14 and
  \<open>(2 + 3) * 4\<close> gives 20.
\<close>

theorem operator_token_pops_then_pushes:
  "is_operator (type token) \<Longrightarrow>
   eval_token token ops vs =
     (case reduce_all (takeWhile (binds_at_least (TOKEN_TYPE_PRECEDENCE (type token))) ops) vs of
        Inl e \<Rightarrow> Inl e
      | Inr vs' \<Rightarrow>
          (case push_operator token
                  (dropWhile (binds_at_least (TOKEN_TYPE_PRECEDENCE (type token))) ops) of
             Inl e \<Rightarrow> Inl e
           | Inr ops' \<Rightarrow> Inr (ops', vs')))
   \<and> process_line ''8 - 3 - 2'' = Inr (DFinite 3)
   \<and> process_line ''2 + 3 * 4'' = Inr (DFinite 14)
   \<and> process_line ''(2 + 3) * 4'' = Inr (DFinite 20)"
proof (intro conjI)
  assume op: "is_operator (type token)"
  show "eval_token token ops vs =
     (case reduce_all (takeWhile (binds_at_least (TOKEN_TYPE_PRECEDENCE (type token))) ops) vs of
        Inl e \<Rightarrow> Inl e
      | Inr vs' \<Rightarrow>
          (case push_operator token
                  (dropWhile (binds_at_least (TOKEN_TYPE_PRECEDENCE (type token))) ops) of
             Inl e \<Rightarrow> Inl e
           | Inr ops' \<Rightarrow> Inr (ops', vs')))"
    by (simp add: eval_token_operator [OF op] pop_while_precedence_eq split: sum.splits)
next
  show "process_line ''8 - 3 - 2'' = Inr (DFinite 3)"
    by (simp add: scan_eval shy_eval)
next
  show "process_line ''2 + 3 * 4'' = Inr (DFinite 14)"
    by (simp add: scan_eval shy_eval)
next
  show "process_line ''(2 + 3) * 4'' = Inr (DFinite 20)"
    by (simp add: scan_eval shy_eval)
qed

text \<open>
  A second subtraction met with \<open>8\<close> and \<open>3\<close> on the value stack reduces the first one
  (equal precedence pops); a multiplication met over an addition does not.
\<close>

theorem operator_token_pops_then_pushes_witness:
  "is_operator (type (tk TOKEN_MINUS 6))
   \<and> eval_token (tk TOKEN_MINUS 6) [tk TOKEN_MINUS 2] [DFinite 3, DFinite 8]
       = Inr ([tk TOKEN_MINUS 6], [DFinite 5])
   \<and> eval_token (tk TOKEN_STAR 6) [tk TOKEN_PLUS 2] [DFinite 3, DFinite 2]
       = Inr ([tk TOKEN_STAR 6, tk TOKEN_PLUS 2], [DFinite 3, DFinite 2])"
  using operator_token_pops_then_pushes [of "tk TOKEN_MINUS 6" "[tk TOKEN_MINUS 2]" "[DFinite 3, DFinite 8]"]
    operator_token_pops_then_pushes [of "tk TOKEN_STAR 6" "[tk TOKEN_PLUS 2]" "[DFinite 3, DFinite 2]"]
  by (simp add: tk_def binds_at_least_def shy_eval mk_finite_def)

subsection \<open>Division by zero\<close>

lemma d_div_by_zero: "is_zero z \<Longrightarrow> is_infinity (d_div x z) \<or> is_nan (d_div x z)"
  by (cases z; cases x) simp_all

text \<open>
  C7: a division whose right operand is a zero is no error: \<^verbatim>\<open>evaluate\<close> divides without
  a test, and the quotient is an infinity or a NaN as IEEE 754 has it. The line \<open>1 / 0\<close>
  gives positive infinity.
\<close>

theorem division_by_zero_is_not_an_error:
  "type operator = TOKEN_SLASH \<Longrightarrow> is_zero operand \<Longrightarrow> length vs < STACK_SIZE_SHY_VALUES \<Longrightarrow>
   evaluate operator (operand # l # vs) = Inr (d_div l operand, vs)
   \<and> reduce operator (operand # l # vs) = Inr (d_div l operand # vs)
   \<and> (is_infinity (d_div l operand) \<or> is_nan (d_div l operand))
   \<and> process_line ''1 / 0'' = Inr (DInfinity False)"
proof (intro conjI)
  assume t: "type operator = TOKEN_SLASH" and z: "is_zero operand"
    and n: "length vs < STACK_SIZE_SHY_VALUES"
  show e: "evaluate operator (operand # l # vs) = Inr (d_div l operand, vs)"
    using t by (simp add: evaluate_def pop_value_def)
  show "reduce operator (operand # l # vs) = Inr (d_div l operand # vs)"
    using n by (simp add: reduce_def e push_value_def)
  show "is_infinity (d_div l operand) \<or> is_nan (d_div l operand)"
    using z by (rule d_div_by_zero)
next
  show "process_line ''1 / 0'' = Inr (DInfinity False)"
    by (simp add: scan_eval shy_eval)
qed

text \<open>\<open>1 / -0\<close> is negative infinity and \<open>0 / 0\<close> is a NaN.\<close>

theorem division_by_zero_is_not_an_error_witness:
  "type (tk TOKEN_SLASH 2) = TOKEN_SLASH \<and> is_zero (DZero True)
   \<and> length [DFinite 7] < STACK_SIZE_SHY_VALUES
   \<and> reduce (tk TOKEN_SLASH 2) [DZero True, DFinite 1, DFinite 7] = Inr [DInfinity True, DFinite 7]
   \<and> reduce (tk TOKEN_SLASH 2) [DZero False, DZero False, DFinite 7] = Inr [DNaN, DFinite 7]"
  using division_by_zero_is_not_an_error [of "tk TOKEN_SLASH 2" "DZero True" "[DFinite 7]" "DFinite 1"]
    division_by_zero_is_not_an_error [of "tk TOKEN_SLASH 2" "DZero False" "[DFinite 7]" "DZero False"]
  by (simp add: tk_def STACK_SIZE_SHY_VALUES_def)

subsection \<open>Blank lines\<close>

lemma scanner_loop_spaces:
  "list_all (\<lambda>c. c = CHR '' '') (drop (current sc) (source sc)) \<Longrightarrow>
   \<exists>sc'. scanner_loop sc = Inr sc' \<and> tokens sc' = tokens sc"
proof (induction sc rule: scanner_loop.induct)
  case (1 sc)
  show ?case
  proof (cases "scanner_is_at_end sc")
    case True
    then show ?thesis by (subst scanner_loop.simps) simp
  next
    case False
    then have lt: "current sc < length (source sc)"
      by (auto simp: scanner_is_at_end_def char_at_def split: if_splits)
    then have d: "drop (current sc) (source sc) = source sc ! current sc # drop (Suc (current sc)) (source sc)"
      by (simp add: Cons_nth_drop_Suc)
    with "1.prems" have c: "source sc ! current sc = CHR '' ''"
      and r: "list_all (\<lambda>c. c = CHR '' '') (drop (Suc (current sc)) (source sc))"
      by simp_all
    let ?n = "sc\<lparr>start := current sc, current := current sc + 1\<rparr>"
    have s: "scanner_scan_token (sc\<lparr>start := current sc\<rparr>) = Inr ?n"
      using lt c by (simp add: scanner_scan_token_def scanner_advance_def char_at_def)
    from "1.IH" [OF False s] r obtain sc' where "scanner_loop ?n = Inr sc'" "tokens sc' = tokens sc"
      by auto
    with False s show ?thesis by (subst scanner_loop.simps) simp
  qed
qed

text \<open>
  C8: a line that is empty or holds only spaces gives no token, and the evaluator on no
  token fails with the error of a value stack that does not hold exactly one value.
\<close>

theorem blank_line_cannot_be_evaluated:
  "list_all (\<lambda>c. c = CHR '' '') src \<Longrightarrow>
   scanner_execute src = Inr []
   \<and> eval_by_shunting_yard [] [] [] = Inl CannotEvaluate
   \<and> exit_code CannotEvaluate = 5
   \<and> process_line src = Inl CannotEvaluate"
proof -
  assume a: "list_all (\<lambda>c. c = CHR '' '') src"
  then obtain sc' where "scanner_loop (scanner_init src) = Inr sc'" "tokens sc' = []"
    using scanner_loop_spaces [of "scanner_init src"] by (auto simp: scanner_init_def)
  then have s: "scanner_execute src = Inr []"
    by (simp add: scanner_execute_def)
  have e: "eval_by_shunting_yard [] [] [] = Inl CannotEvaluate"
    by (simp add: eval_by_shunting_yard_def)
  from s e show ?thesis by (simp add: process_line_def)
qed

text \<open>Three spaces, and the empty line.\<close>

theorem blank_line_cannot_be_evaluated_witness:
  "list_all (\<lambda>c. c = CHR '' '') ''   '' \<and> scanner_execute ''   '' = Inr []
   \<and> process_line ''   '' = Inl CannotEvaluate
   \<and> list_all (\<lambda>c. c = CHR '' '') '''' \<and> scanner_execute '''' = Inr []
   \<and> process_line '''' = Inl CannotEvaluate"
  using blank_line_cannot_be_evaluated [of "''   ''"] blank_line_cannot_be_evaluated [of "''''"]
  by simp

subsection \<open>Two unary minuses in a row\<close>

text \<open>
  C10, as amended: when a unary minus is met while the top of the operator stack is a
  unary minus and the value stack is empty, evaluation fails with the evaluation error of
  an empty value stack: the precedence 4 of the first is at least that of the second, so
  the first is popped and reduced with no operand to pop. This is so for every token
  sequence that starts with two unary minuses, such as that of \<open>--5\<close>.
\<close>

theorem second_unary_minus_on_empty_values:
  "type u1 = TOKEN_UMINUS \<Longrightarrow> type u2 = TOKEN_UMINUS \<Longrightarrow>
   eval_token u2 (u1 # ops) [] = Inl ValuesStackEmpty
   \<and> eval_by_shunting_yard (u2 # rest) (u1 # ops) [] = Inl ValuesStackEmpty
   \<and> eval_by_shunting_yard (u1 # u2 # rest) [] [] = Inl ValuesStackEmpty
   \<and> exit_code ValuesStackEmpty = 5
   \<and> process_line ''--5'' = Inl ValuesStackEmpty"
proof (intro conjI)
  assume a: "type u1 = TOKEN_UMINUS" and b: "type u2 = TOKEN_UMINUS"
  show t: "eval_token u2 (u1 # ops) [] = Inl ValuesStackEmpty" for ops
    using a b by (simp add: eval_token_def reduce_def evaluate_def pop_value_def)
  then show "eval_by_shunting_yard (u2 # rest) (u1 # ops) [] = Inl ValuesStackEmpty"
    by (simp add: eval_by_shunting_yard_def)
  have "eval_token u1 [] [] = Inr ([u1], [])"
    using a by (simp add: eval_token_def push_operator_def STACK_SIZE_SHY_OPERATORS_def)
  with t show "eval_by_shunting_yard (u1 # u2 # rest) [] [] = Inl ValuesStackEmpty"
    by (simp add: eval_by_shunting_yard_def)
next
  show "exit_code ValuesStackEmpty = 5" by simp
next
  show "process_line ''--5'' = Inl ValuesStackEmpty"
    by (simp add: scan_eval shy_eval)
qed

text \<open>The tokens of \<open>--5\<close>.\<close>

theorem second_unary_minus_on_empty_values_witness:
  "type (tk TOKEN_UMINUS 0) = TOKEN_UMINUS \<and> type (tk TOKEN_UMINUS 1) = TOKEN_UMINUS
   \<and> scanner_execute ''--5'' =
       Inr [tk TOKEN_UMINUS 0, tk TOKEN_UMINUS 1,
            number_token (DFinite 5) 2 2]
   \<and> eval_by_shunting_yard [tk TOKEN_UMINUS 0, tk TOKEN_UMINUS 1,
            number_token (DFinite 5) 2 2] [] []
       = Inl ValuesStackEmpty"
  using second_unary_minus_on_empty_values [of "tk TOKEN_UMINUS 0" "tk TOKEN_UMINUS 1" "[]"
      "[number_token (DFinite 5) 2 2]"]
  by (simp add: tk_def number_token_def scan_eval)

text \<open>
  The claim as stated is about every input with two consecutive unary minuses. The line
  \<open>5 - --3\<close> has two, and evaluates to \<open>-2\<close>: when the second is met the value stack
  holds 5, which the first then negates.
\<close>

theorem consecutive_unary_minus_counterexample:
  "scanner_execute ''5 - --3'' =
     Inr [number_token (DFinite 5) 0 0,
          tk TOKEN_MINUS 2, tk TOKEN_UMINUS 4, tk TOKEN_UMINUS 5,
          number_token (DFinite 3) 6 6]
   \<and> process_line ''5 - --3'' = Inr (DFinite (- 2))"
  by (simp add: tk_def number_token_def scan_eval shy_eval)

subsection \<open>Mismatched parentheses\<close>

text \<open>
  The two loops that look for a left parenthesis, on operators that hold none: they
  reduce the operators from the top, and stop at the first that fails.
\<close>

lemma pop_until_left_paren_no_paren:
  "\<forall>t\<in>set ops. type t \<noteq> TOKEN_LEFT_PAREN \<Longrightarrow>
   pop_until_left_paren ops vs =
     (case reduce_all ops vs of Inl e \<Rightarrow> Inl e | Inr vs' \<Rightarrow> Inr ([], vs'))"
  by (induction ops arbitrary: vs) (auto split: sum.splits)

lemma drain_operators_to_paren:
  "\<forall>t\<in>set upper. type t \<noteq> TOKEN_LEFT_PAREN \<Longrightarrow> type lp = TOKEN_LEFT_PAREN \<Longrightarrow>
   drain_operators (upper @ lp # lower) vs =
     (case reduce_all upper vs of
        Inl e \<Rightarrow> Inl e
      | Inr vs' \<Rightarrow> Inl (MismatchedLeftParen (start_at lp)))"
  by (induction upper arbitrary: vs) (auto split: sum.splits)

text \<open>
  C4, as amended: when a right parenthesis is processed with no left parenthesis on the
  operator stack and every operator on the stack reduces without error, evaluation
  fails with the evaluation error of a mismatched right parenthesis at the start of
  that token. After the last token, when the operator stack holds a left parenthesis
  and the operators over the topmost one all reduce without error, evaluation fails
  with the evaluation error of a mismatched left parenthesis at the start of that
  parenthesis. In both cases, when one of these operators fails to reduce, the error is
  that of the first operator that fails. So \<open>(1 + 2))\<close> fails at offset 7 and
  \<open>((1 + 2)\<close> at offset 0 with the mismatch, and \<open>1 + )\<close> and \<open>(1 +\<close> with the empty
  value stack.
\<close>

theorem mismatched_parens:
  "type rp = TOKEN_RIGHT_PAREN \<Longrightarrow> \<forall>t\<in>set ops. type t \<noteq> TOKEN_LEFT_PAREN \<Longrightarrow>
   type lp = TOKEN_LEFT_PAREN \<Longrightarrow> \<forall>t\<in>set upper. type t \<noteq> TOKEN_LEFT_PAREN \<Longrightarrow>
   eval_tokens tks ops0 vs0 = Inr (upper @ lp # lower, vs1) \<Longrightarrow>
   eval_token rp ops vs =
     (case reduce_all ops vs of
        Inl e \<Rightarrow> Inl e
      | Inr vs' \<Rightarrow> Inl (MismatchedRightParen (start_at rp)))
   \<and> eval_by_shunting_yard (rp # rest) ops vs =
     (case reduce_all ops vs of
        Inl e \<Rightarrow> Inl e
      | Inr vs' \<Rightarrow> Inl (MismatchedRightParen (start_at rp)))
   \<and> eval_by_shunting_yard tks ops0 vs0 =
     (case reduce_all upper vs1 of
        Inl e \<Rightarrow> Inl e
      | Inr vs2 \<Rightarrow> Inl (MismatchedLeftParen (start_at lp)))
   \<and> exit_code (MismatchedRightParen (start_at rp)) = 5
   \<and> exit_code (MismatchedLeftParen (start_at lp)) = 5
   \<and> process_line ''(1 + 2))'' = Inl (MismatchedRightParen 7)
   \<and> process_line ''((1 + 2)'' = Inl (MismatchedLeftParen 0)
   \<and> process_line ''1 + )'' = Inl ValuesStackEmpty
   \<and> process_line ''(1 +'' = Inl ValuesStackEmpty"
proof (intro conjI)
  assume r: "type rp = TOKEN_RIGHT_PAREN" and n: "\<forall>t\<in>set ops. type t \<noteq> TOKEN_LEFT_PAREN"
  show t: "eval_token rp ops vs =
     (case reduce_all ops vs of
        Inl e \<Rightarrow> Inl e
      | Inr vs' \<Rightarrow> Inl (MismatchedRightParen (start_at rp)))"
    using r by (simp add: eval_token_def pop_until_left_paren_no_paren [OF n] split: sum.splits)
  show "eval_by_shunting_yard (rp # rest) ops vs =
     (case reduce_all ops vs of
        Inl e \<Rightarrow> Inl e
      | Inr vs' \<Rightarrow> Inl (MismatchedRightParen (start_at rp)))"
    by (simp add: eval_by_shunting_yard_def t split: sum.splits)
next
  assume l: "type lp = TOKEN_LEFT_PAREN" and n: "\<forall>t\<in>set upper. type t \<noteq> TOKEN_LEFT_PAREN"
    and e: "eval_tokens tks ops0 vs0 = Inr (upper @ lp # lower, vs1)"
  show "eval_by_shunting_yard tks ops0 vs0 =
     (case reduce_all upper vs1 of
        Inl e \<Rightarrow> Inl e
      | Inr vs2 \<Rightarrow> Inl (MismatchedLeftParen (start_at lp)))"
    by (simp add: eval_by_shunting_yard_def e drain_operators_to_paren [OF n l] split: sum.splits)
next
  show "exit_code (MismatchedRightParen (start_at rp)) = 5" by simp
  show "exit_code (MismatchedLeftParen (start_at lp)) = 5" by simp
  show "process_line ''(1 + 2))'' = Inl (MismatchedRightParen 7)"
    by (simp add: scan_eval shy_eval)
  show "process_line ''((1 + 2)'' = Inl (MismatchedLeftParen 0)"
    by (simp add: scan_eval shy_eval)
  show "process_line ''1 + )'' = Inl ValuesStackEmpty"
    by (simp add: scan_eval shy_eval)
  show "process_line ''(1 +'' = Inl ValuesStackEmpty"
    by (simp add: scan_eval shy_eval)
qed

text \<open>
  A right parenthesis over a lone addition, as in \<open>1 + 2)\<close>, and the tokens of
  \<open>(1 + (2 * 3\<close>, where a multiplication lies over the topmost left parenthesis.
\<close>

theorem mismatched_parens_witness:
  "type (tk TOKEN_RIGHT_PAREN 5) = TOKEN_RIGHT_PAREN
   \<and> type (tk TOKEN_PLUS 2) \<noteq> TOKEN_LEFT_PAREN
   \<and> reduce_all [tk TOKEN_PLUS 2] [DFinite 2, DFinite 1] = Inr [DFinite 3]
   \<and> type (tk TOKEN_LEFT_PAREN 5) = TOKEN_LEFT_PAREN
   \<and> type (tk TOKEN_STAR 8) \<noteq> TOKEN_LEFT_PAREN
   \<and> eval_tokens [tk TOKEN_LEFT_PAREN 0, number_token (DFinite 1) 1 1, tk TOKEN_PLUS 3,
                   tk TOKEN_LEFT_PAREN 5, number_token (DFinite 2) 6 6, tk TOKEN_STAR 8,
                   number_token (DFinite 3) 10 10] [] []
       = Inr ([tk TOKEN_STAR 8] @ tk TOKEN_LEFT_PAREN 5 # [tk TOKEN_PLUS 3, tk TOKEN_LEFT_PAREN 0],
              [DFinite 3, DFinite 2, DFinite 1])
   \<and> reduce_all [tk TOKEN_STAR 8] [DFinite 3, DFinite 2, DFinite 1] = Inr [DFinite 6, DFinite 1]
   \<and> eval_token (tk TOKEN_RIGHT_PAREN 5) [tk TOKEN_PLUS 2] [DFinite 2, DFinite 1]
       = Inl (MismatchedRightParen 5)
   \<and> eval_by_shunting_yard [tk TOKEN_LEFT_PAREN 0, number_token (DFinite 1) 1 1, tk TOKEN_PLUS 3,
                   tk TOKEN_LEFT_PAREN 5, number_token (DFinite 2) 6 6, tk TOKEN_STAR 8,
                   number_token (DFinite 3) 10 10] [] []
       = Inl (MismatchedLeftParen 5)"
proof -
  have a: "type (tk TOKEN_RIGHT_PAREN 5) = TOKEN_RIGHT_PAREN"
    by (simp add: tk_def)
  have b: "\<forall>t\<in>set [tk TOKEN_PLUS 2]. type t \<noteq> TOKEN_LEFT_PAREN"
    by (simp add: tk_def)
  have b': "reduce_all [tk TOKEN_PLUS 2] [DFinite 2, DFinite 1] = Inr [DFinite 3]"
    by (simp add: tk_def shy_eval mk_finite_def)
  have c: "type (tk TOKEN_LEFT_PAREN 5) = TOKEN_LEFT_PAREN"
    by (simp add: tk_def)
  have c': "\<forall>t\<in>set [tk TOKEN_STAR 8]. type t \<noteq> TOKEN_LEFT_PAREN"
    by (simp add: tk_def)
  have d: "eval_tokens [tk TOKEN_LEFT_PAREN 0, number_token (DFinite 1) 1 1, tk TOKEN_PLUS 3,
                   tk TOKEN_LEFT_PAREN 5, number_token (DFinite 2) 6 6, tk TOKEN_STAR 8,
                   number_token (DFinite 3) 10 10] [] []
       = Inr ([tk TOKEN_STAR 8] @ tk TOKEN_LEFT_PAREN 5 # [tk TOKEN_PLUS 3, tk TOKEN_LEFT_PAREN 0],
              [DFinite 3, DFinite 2, DFinite 1])"
    by (simp add: tk_def number_token_def shy_eval)
  have e: "reduce_all [tk TOKEN_STAR 8] [DFinite 3, DFinite 2, DFinite 1]
       = Inr [DFinite 6, DFinite 1]"
    by (simp add: tk_def shy_eval)
  from mismatched_parens [OF a b c c' d, of "[DFinite 2, DFinite 1]" "[]"] a b b' c c' d e
  show ?thesis
    by (simp add: tk_def)
qed

text \<open>
  The claim as stated gives the mismatched left parenthesis for every left parenthesis
  that is on the operator stack after the last token, and the mismatched right
  parenthesis whenever a right parenthesis empties the operator stack without finding a
  left one. On \<open>(1 +\<close> the stack holds the addition over the left parenthesis after the
  last token; the addition is reduced first and fails on the value stack. On \<open>1 + )\<close>
  the right parenthesis pops the addition, which leaves the operator stack empty, and
  the addition fails on the value stack. Both lines fail with the error of an empty
  value stack.
\<close>

theorem failing_operator_before_paren_counterexample:
  "scanner_execute ''(1 +'' =
     Inr [tk TOKEN_LEFT_PAREN 0, number_token (DFinite 1) 1 1, tk TOKEN_PLUS 3]
   \<and> eval_tokens [tk TOKEN_LEFT_PAREN 0, number_token (DFinite 1) 1 1, tk TOKEN_PLUS 3] [] []
       = Inr ([tk TOKEN_PLUS 3, tk TOKEN_LEFT_PAREN 0], [DFinite 1])
   \<and> process_line ''(1 +'' = Inl ValuesStackEmpty
   \<and> process_line ''(1 +'' \<noteq> Inl (MismatchedLeftParen 0)
   \<and> scanner_execute ''1 + )'' =
     Inr [number_token (DFinite 1) 0 0, tk TOKEN_PLUS 2, tk TOKEN_RIGHT_PAREN 4]
   \<and> eval_tokens [number_token (DFinite 1) 0 0, tk TOKEN_PLUS 2] [] []
       = Inr ([tk TOKEN_PLUS 2], [DFinite 1])
   \<and> pop_operator [tk TOKEN_PLUS 2] = Inr (tk TOKEN_PLUS 2, [])
   \<and> eval_token (tk TOKEN_RIGHT_PAREN 4) [tk TOKEN_PLUS 2] [DFinite 1] = Inl ValuesStackEmpty
   \<and> process_line ''1 + )'' = Inl ValuesStackEmpty
   \<and> process_line ''1 + )'' \<noteq> Inl (MismatchedRightParen 4)"
  by (simp add: tk_def number_token_def scan_eval shy_eval)

subsection \<open>Well-formed expressions\<close>

lemma is_binary_operator: "is_binary ty \<Longrightarrow> is_operator ty"
  by (cases ty) simp_all

lemma operator_cases: "is_operator ty \<Longrightarrow> ty = TOKEN_UMINUS \<or> is_binary ty"
  by (cases ty) simp_all

lemma is_binary_precedence: "is_binary ty \<Longrightarrow> TOKEN_TYPE_PRECEDENCE ty < 4"
  by (cases ty) simp_all

lemma overflowed_Inr [simp]: "\<not> overflowed (Inr x)"
  by (simp add: overflowed_def)

lemma overflowed_case:
  "overflowed r \<Longrightarrow> overflowed (case r of Inl e \<Rightarrow> Inl e | Inr x \<Rightarrow> f x)"
  by (auto simp: overflowed_def)

lemma reduce_unary:
  "type t = TOKEN_UMINUS \<Longrightarrow>
   reduce t (w # vs) = Inr (d_neg w # vs) \<or> overflowed (reduce t (w # vs))"
  by (simp add: reduce_def evaluate_def pop_value_def push_value_def overflowed_def)

lemma reduce_binary:
  "is_binary (type t) \<Longrightarrow>
   (\<exists>v. reduce t (a # b # vs) = Inr (v # vs)) \<or> overflowed (reduce t (a # b # vs))"
  by (cases "type t")
     (simp_all add: reduce_def evaluate_def pop_value_def push_value_def overflowed_def)

text \<open>One operator of the stack reduced: a value less for a binary one, as many for a unary.\<close>

lemma reduce_operator:
  assumes "is_operator (type t)" and "(if is_binary (type t) then 1 else 0) < length ws"
  shows "(\<exists>ws'. reduce t (ws @ vs) = Inr (ws' @ vs)
            \<and> length ws' + (if is_binary (type t) then 1 else 0) = length ws)
         \<or> overflowed (reduce t (ws @ vs))"
proof -
  from operator_cases [OF assms(1)] show ?thesis
  proof
    assume u: "type t = TOKEN_UMINUS"
    with assms(2) obtain w ws1 where ws: "ws = w # ws1" by (cases ws) auto
    from reduce_unary [OF u, of w "ws1 @ vs"] show ?thesis
    proof
      assume "reduce t (w # ws1 @ vs) = Inr (d_neg w # ws1 @ vs)"
      then have "reduce t (ws @ vs) = Inr ((d_neg w # ws1) @ vs)" by (simp add: ws)
      moreover have "length (d_neg w # ws1) + (if is_binary (type t) then 1 else 0) = length ws"
        using u ws by simp
      ultimately show ?thesis by blast
    next
      assume "overflowed (reduce t (w # ws1 @ vs))"
      then show ?thesis by (simp add: ws)
    qed
  next
    assume b: "is_binary (type t)"
    with assms(2) obtain x y ws1 where ws: "ws = x # y # ws1"
      by (cases ws; cases "tl ws") auto
    from reduce_binary [OF b, of x y "ws1 @ vs"] show ?thesis
    proof
      assume "\<exists>v. reduce t (x # y # ws1 @ vs) = Inr (v # ws1 @ vs)"
      then obtain v where "reduce t (ws @ vs) = Inr ((v # ws1) @ vs)" by (auto simp: ws)
      moreover have "length (v # ws1) + (if is_binary (type t) then 1 else 0) = length ws"
        using b ws by simp
      ultimately show ?thesis by blast
    next
      assume "overflowed (reduce t (x # y # ws1 @ vs))"
      then show ?thesis by (simp add: ws)
    qed
  qed
qed

lemma binary_count_Cons:
  "binary_count (t # ops) = (if is_binary (type t) then 1 else 0) + binary_count ops"
  by (simp add: binary_count_def)

lemma reduce_all_operators:
  "all_operators ops \<Longrightarrow> binary_count ops < length ws \<Longrightarrow>
   (\<exists>ws'. reduce_all ops (ws @ vs) = Inr (ws' @ vs)
          \<and> length ws' + binary_count ops = length ws)
   \<or> overflowed (reduce_all ops (ws @ vs))"
proof (induction ops arbitrary: ws)
  case Nil
  then show ?case by (simp add: binary_count_def)
next
  case (Cons t ops)
  from Cons.prems(1) have op: "is_operator (type t)" and rest: "all_operators ops"
    by (simp_all add: all_operators_def)
  from Cons.prems(2) have "(if is_binary (type t) then 1 else 0) < length ws"
    by (simp add: binary_count_Cons split: if_splits)
  from reduce_operator [OF op this, of vs] show ?case
  proof
    assume "overflowed (reduce t (ws @ vs))"
    then show ?thesis by (simp add: overflowed_case)
  next
    assume "\<exists>ws'. reduce t (ws @ vs) = Inr (ws' @ vs)
            \<and> length ws' + (if is_binary (type t) then 1 else 0) = length ws"
    then obtain ws1 where r: "reduce t (ws @ vs) = Inr (ws1 @ vs)"
      and l: "length ws1 + (if is_binary (type t) then 1 else 0) = length ws" by blast
    from l Cons.prems(2) have "binary_count ops < length ws1"
      by (simp add: binary_count_Cons split: if_splits)
    from Cons.IH [OF rest this] show ?thesis
    proof
      assume "overflowed (reduce_all ops (ws1 @ vs))"
      with r show ?thesis by simp
    next
      assume "\<exists>ws'. reduce_all ops (ws1 @ vs) = Inr (ws' @ vs)
          \<and> length ws' + binary_count ops = length ws1"
      then obtain ws' where "reduce_all ops (ws1 @ vs) = Inr (ws' @ vs)"
        and "length ws' + binary_count ops = length ws1" by blast
      with r l have "reduce_all (t # ops) (ws @ vs) = Inr (ws' @ vs)
          \<and> length ws' + binary_count (t # ops) = length ws"
        by (simp add: binary_count_Cons)
      then show ?thesis by blast
    qed
  qed
qed

lemma pop_until_left_paren_eq:
  "all_operators ops \<Longrightarrow> on_paren base \<Longrightarrow>
   pop_until_left_paren (ops @ base) vs =
     (case reduce_all ops vs of Inl e \<Rightarrow> Inl e | Inr vs' \<Rightarrow> Inr (base, vs'))"
proof (induction ops arbitrary: vs)
  case Nil
  then show ?case by (cases base) (simp_all add: on_paren_def)
next
  case (Cons t ops)
  then have "type t \<noteq> TOKEN_LEFT_PAREN" and "all_operators ops"
    by (auto simp: all_operators_def)
  with Cons show ?case by (simp split: sum.splits)
qed

lemma drain_operators_eq:
  "all_operators ops \<Longrightarrow>
   drain_operators ops vs =
     (case reduce_all ops vs of Inl e \<Rightarrow> Inl e | Inr vs' \<Rightarrow> Inr ([], vs'))"
proof (induction ops arbitrary: vs)
  case Nil
  then show ?case by simp
next
  case (Cons t ops)
  then have "type t \<noteq> TOKEN_LEFT_PAREN" and "all_operators ops"
    by (auto simp: all_operators_def)
  with Cons show ?case by (simp split: sum.splits)
qed

lemma pop_while_precedence_stop:
  "ops = [] \<or> type (hd ops) = TOKEN_LEFT_PAREN \<or> TOKEN_TYPE_PRECEDENCE (type (hd ops)) < p \<Longrightarrow>
   pop_while_precedence p ops vs = Inr (ops, vs)"
  by (cases ops) auto

lemma pop_while_precedence_pending:
  "all_operators ops \<Longrightarrow> on_paren base \<Longrightarrow> binary_count ops < length ws \<Longrightarrow>
   (\<exists>ops' ws'. pop_while_precedence p (ops @ base) (ws @ vs) = Inr (ops' @ base, ws' @ vs)
     \<and> all_operators ops'
     \<and> length ws' + binary_count ops = length ws + binary_count ops')
   \<or> overflowed (pop_while_precedence p (ops @ base) (ws @ vs))"
proof (induction ops arbitrary: ws)
  case Nil
  have "pop_while_precedence p base (ws @ vs) = Inr (base, ws @ vs)"
    using Nil.prems(2) by (cases base) (simp_all add: on_paren_def)
  then have "pop_while_precedence p ([] @ base) (ws @ vs) = Inr ([] @ base, ws @ vs)
     \<and> all_operators []
     \<and> length ws + binary_count [] = length ws + binary_count []"
    by (simp add: all_operators_def)
  then show ?case by blast
next
  case (Cons t ops)
  from Cons.prems(1) have op: "is_operator (type t)" and rest: "all_operators ops"
    by (simp_all add: all_operators_def)
  from op have nl: "type t \<noteq> TOKEN_LEFT_PAREN" by (cases "type t") simp_all
  show ?case
  proof (cases "TOKEN_TYPE_PRECEDENCE (type t) \<ge> p")
    case False
    with nl have "pop_while_precedence p ((t # ops) @ base) (ws @ vs)
        = Inr ((t # ops) @ base, ws @ vs)" by simp
    with Cons.prems(1) show ?thesis by blast
  next
    case True
    from Cons.prems(3) have "(if is_binary (type t) then 1 else 0) < length ws"
      by (simp add: binary_count_Cons split: if_splits)
    from reduce_operator [OF op this, of vs] show ?thesis
    proof
      assume "overflowed (reduce t (ws @ vs))"
      with True nl show ?thesis by (simp add: overflowed_case)
    next
      assume "\<exists>ws'. reduce t (ws @ vs) = Inr (ws' @ vs)
            \<and> length ws' + (if is_binary (type t) then 1 else 0) = length ws"
      then obtain ws1 where r: "reduce t (ws @ vs) = Inr (ws1 @ vs)"
        and l: "length ws1 + (if is_binary (type t) then 1 else 0) = length ws" by blast
      from l Cons.prems(3) have "binary_count ops < length ws1"
        by (simp add: binary_count_Cons split: if_splits)
      from Cons.IH [OF rest Cons.prems(2) this] show ?thesis
      proof
        assume "overflowed (pop_while_precedence p (ops @ base) (ws1 @ vs))"
        with r True nl show ?thesis by simp
      next
        assume "\<exists>ops' ws'. pop_while_precedence p (ops @ base) (ws1 @ vs)
              = Inr (ops' @ base, ws' @ vs)
            \<and> all_operators ops'
            \<and> length ws' + binary_count ops = length ws1 + binary_count ops'"
        then obtain ops' ws' where
          "pop_while_precedence p (ops @ base) (ws1 @ vs) = Inr (ops' @ base, ws' @ vs)"
          "all_operators ops'"
          "length ws' + binary_count ops = length ws1 + binary_count ops'" by blast
        with r l True nl
        have "pop_while_precedence p ((t # ops) @ base) (ws @ vs) = Inr (ops' @ base, ws' @ vs)
            \<and> all_operators ops'
            \<and> length ws' + binary_count (t # ops) = length ws + binary_count ops'"
          by (simp add: binary_count_Cons)
        then show ?thesis by blast
      qed
    qed
  qed
qed

lemma eval_tokens_append:
  "eval_tokens (xs @ ys) ops vs =
     (case eval_tokens xs ops vs of
        Inl e \<Rightarrow> Inl e
      | Inr (ops', vs') \<Rightarrow> eval_tokens ys ops' vs')"
  by (induction xs arbitrary: ops vs) (auto split: sum.splits)

lemma eval_token_number:
  "type t = TOKEN_NUMBER \<Longrightarrow>
   eval_token t ops vs = Inr (ops, literal t # vs) \<or> overflowed (eval_token t ops vs)"
  by (simp add: eval_token_def push_value_def overflowed_def)

lemma eval_token_left_paren:
  "type t = TOKEN_LEFT_PAREN \<Longrightarrow>
   eval_token t ops vs = Inr (t # ops, vs) \<or> overflowed (eval_token t ops vs)"
  by (simp add: eval_token_def push_operator_def overflowed_def)

lemma eval_token_right_paren:
  "type t = TOKEN_RIGHT_PAREN \<Longrightarrow>
   eval_token t ops vs =
     (case pop_until_left_paren ops vs of
        Inl e \<Rightarrow> Inl e
      | Inr (ops', vs') \<Rightarrow>
          if ops' = [] then Inl (MismatchedRightParen (start_at t)) else Inr (tl ops', vs'))"
  by (auto simp: eval_token_def pop_operator_def peek_operator_def
      split: sum.splits prod.splits list.splits)

lemma eval_token_push:
  assumes "is_operator (type t)"
    and "pop_while_precedence (TOKEN_TYPE_PRECEDENCE (type t)) ops vs = Inr (ops', vs')"
  shows "eval_token t ops vs = Inr (t # ops', vs') \<or> overflowed (eval_token t ops vs)"
  using assms(2) by (simp add: eval_token_operator [OF assms(1)] push_operator_def overflowed_def)

lemma pushes_one_value_Num:
  assumes "type n = TOKEN_NUMBER"
  shows "pushes_one_value (Num n)"
  unfolding pushes_one_value_def
proof (intro allI)
  fix ops :: "Token list" and vs :: "double list"
  from eval_token_number [OF assms, of ops vs]
  show "(\<exists>v. eval_tokens (tokens_of (Num n)) ops vs = Inr (ops, v # vs))
        \<or> overflowed (eval_tokens (tokens_of (Num n)) ops vs)"
    by (auto simp: overflowed_case)
qed

lemma pushes_one_value_Paren:
  assumes l: "type l = TOKEN_LEFT_PAREN" and r: "type r = TOKEN_RIGHT_PAREN"
    and e: "leaves_pending e"
  shows "pushes_one_value (Paren l e r)"
  unfolding pushes_one_value_def
proof (intro allI)
  fix ops :: "Token list" and vs :: "double list"
  let ?goal = "(\<exists>v. eval_tokens (tokens_of (Paren l e r)) ops vs = Inr (ops, v # vs))
        \<or> overflowed (eval_tokens (tokens_of (Paren l e r)) ops vs)"
  from eval_token_left_paren [OF l, of ops vs] show ?goal
  proof
    assume "overflowed (eval_token l ops vs)"
    then show ?goal by (simp add: overflowed_case)
  next
    assume 1: "eval_token l ops vs = Inr (l # ops, vs)"
    have base: "on_paren (l # ops)" using l by (simp add: on_paren_def)
    with e have "(\<exists>ops' ws'. eval_tokens (tokens_of e) (l # ops) vs
                      = Inr (ops' @ l # ops, ws' @ vs)
                  \<and> all_operators ops' \<and> length ws' = Suc (binary_count ops'))
              \<or> overflowed (eval_tokens (tokens_of e) (l # ops) vs)"
      unfolding leaves_pending_def by blast
    then show ?goal
    proof
      assume "overflowed (eval_tokens (tokens_of e) (l # ops) vs)"
      then show ?goal by (simp add: 1 eval_tokens_append overflowed_case)
    next
      assume "\<exists>ops' ws'. eval_tokens (tokens_of e) (l # ops) vs
                      = Inr (ops' @ l # ops, ws' @ vs)
                  \<and> all_operators ops' \<and> length ws' = Suc (binary_count ops')"
      then obtain ops' ws' where
        2: "eval_tokens (tokens_of e) (l # ops) vs = Inr (ops' @ l # ops, ws' @ vs)"
        and ao: "all_operators ops'" and lw: "length ws' = Suc (binary_count ops')"
        by blast
      from lw have "binary_count ops' < length ws'" by simp
      from reduce_all_operators [OF ao this, of vs] show ?goal
      proof
        assume "overflowed (reduce_all ops' (ws' @ vs))"
        then have "overflowed (eval_token r (ops' @ l # ops) (ws' @ vs))"
          by (simp add: eval_token_right_paren [OF r] pop_until_left_paren_eq [OF ao base]
              overflowed_case)
        then show ?goal by (simp add: 1 eval_tokens_append 2 overflowed_case)
      next
        assume "\<exists>ws''. reduce_all ops' (ws' @ vs) = Inr (ws'' @ vs)
            \<and> length ws'' + binary_count ops' = length ws'"
        with lw obtain ws'' where ra: "reduce_all ops' (ws' @ vs) = Inr (ws'' @ vs)"
          and "length ws'' = 1" by auto
        then obtain v where v: "ws'' = [v]" by (cases ws'') auto
        from pop_until_left_paren_eq [OF ao base] ra v
        have "pop_until_left_paren (ops' @ l # ops) (ws' @ vs) = Inr (l # ops, v # vs)" by simp
        then have 3: "eval_token r (ops' @ l # ops) (ws' @ vs) = Inr (ops, v # vs)"
          by (simp add: eval_token_right_paren [OF r])
        have "eval_tokens (tokens_of (Paren l e r)) ops vs = Inr (ops, v # vs)"
          by (simp add: 1 eval_tokens_append 2 3)
        then show ?goal by blast
      qed
    qed
  qed
qed

lemma extends_pending_atom:
  assumes "pushes_one_value e"
  shows "extends_pending e"
  unfolding extends_pending_def
proof (intro allI impI)
  fix ops base :: "Token list" and ws vs :: "double list"
  assume ao: "all_operators ops"
  from assms have "(\<exists>v. eval_tokens (tokens_of e) (ops @ base) (ws @ vs)
                         = Inr (ops @ base, v # ws @ vs))
      \<or> overflowed (eval_tokens (tokens_of e) (ops @ base) (ws @ vs))"
    unfolding pushes_one_value_def by blast
  with ao show "(\<exists>ops' v. eval_tokens (tokens_of e) (ops @ base) (ws @ vs)
                           = Inr (ops' @ base, v # ws @ vs)
                  \<and> all_operators ops' \<and> binary_count ops' = binary_count ops)
              \<or> overflowed (eval_tokens (tokens_of e) (ops @ base) (ws @ vs))"
    by blast
qed

lemma extends_pending_Neg:
  assumes m: "type m = TOKEN_UMINUS" and a: "pushes_one_value a"
  shows "extends_pending (Neg m a)"
  unfolding extends_pending_def
proof (intro allI impI)
  fix ops base :: "Token list" and ws vs :: "double list"
  assume ao: "all_operators ops" and hd: "ops = [] \<or> is_binary (type (hd ops))"
    and base: "on_paren base" and lw: "length ws = binary_count ops"
  let ?goal = "(\<exists>ops' v. eval_tokens (tokens_of (Neg m a)) (ops @ base) (ws @ vs)
                           = Inr (ops' @ base, v # ws @ vs)
                  \<and> all_operators ops' \<and> binary_count ops' = binary_count ops)
              \<or> overflowed (eval_tokens (tokens_of (Neg m a)) (ops @ base) (ws @ vs))"
  have "ops @ base = [] \<or> type (hd (ops @ base)) = TOKEN_LEFT_PAREN
        \<or> TOKEN_TYPE_PRECEDENCE (type (hd (ops @ base))) < 4"
  proof (cases ops)
    case Nil
    with base show ?thesis by (cases base) (simp_all add: on_paren_def)
  next
    case (Cons t rest)
    with hd show ?thesis by (simp add: is_binary_precedence)
  qed
  then have "pop_while_precedence 4 (ops @ base) (ws @ vs) = Inr (ops @ base, ws @ vs)"
    by (rule pop_while_precedence_stop)
  with m have pw: "pop_while_precedence (TOKEN_TYPE_PRECEDENCE (type m)) (ops @ base) (ws @ vs)
      = Inr (ops @ base, ws @ vs)" by simp
  from m have op: "is_operator (type m)" by simp
  from eval_token_push [OF op pw] show ?goal
  proof
    assume "overflowed (eval_token m (ops @ base) (ws @ vs))"
    then show ?goal by (simp add: overflowed_case)
  next
    assume 1: "eval_token m (ops @ base) (ws @ vs) = Inr (m # ops @ base, ws @ vs)"
    from a have "(\<exists>v. eval_tokens (tokens_of a) (m # ops @ base) (ws @ vs)
                       = Inr (m # ops @ base, v # ws @ vs))
        \<or> overflowed (eval_tokens (tokens_of a) (m # ops @ base) (ws @ vs))"
      unfolding pushes_one_value_def by blast
    then show ?goal
    proof
      assume "overflowed (eval_tokens (tokens_of a) (m # ops @ base) (ws @ vs))"
      then show ?goal by (simp add: 1)
    next
      assume "\<exists>v. eval_tokens (tokens_of a) (m # ops @ base) (ws @ vs)
                       = Inr (m # ops @ base, v # ws @ vs)"
      then obtain v where
        "eval_tokens (tokens_of a) (m # ops @ base) (ws @ vs) = Inr (m # ops @ base, v # ws @ vs)"
        by blast
      then have "eval_tokens (tokens_of (Neg m a)) (ops @ base) (ws @ vs)
          = Inr ((m # ops) @ base, v # ws @ vs)"
        by (simp add: 1)
      moreover have "all_operators (m # ops)" using ao m by (simp add: all_operators_def)
      moreover have "binary_count (m # ops) = binary_count ops"
        using m by (simp add: binary_count_def)
      ultimately show ?goal by blast
    qed
  qed
qed

lemma leaves_pending_unary:
  assumes "extends_pending e"
  shows "leaves_pending e"
  unfolding leaves_pending_def
proof (intro allI impI)
  fix base :: "Token list" and vs :: "double list"
  assume base: "on_paren base"
  let ?goal = "(\<exists>ops' ws'. eval_tokens (tokens_of e) base vs = Inr (ops' @ base, ws' @ vs)
                  \<and> all_operators ops' \<and> length ws' = Suc (binary_count ops'))
              \<or> overflowed (eval_tokens (tokens_of e) base vs)"
  have "all_operators []" and "length ([] :: double list) = binary_count []"
    by (simp_all add: all_operators_def binary_count_def)
  with assms [unfolded extends_pending_def, rule_format, of "[]" base "[]" vs] base
  have "(\<exists>ops' v. eval_tokens (tokens_of e) base vs = Inr (ops' @ base, v # vs)
          \<and> all_operators ops' \<and> binary_count ops' = binary_count [])
        \<or> overflowed (eval_tokens (tokens_of e) base vs)" by simp
  then show ?goal
  proof
    assume "overflowed (eval_tokens (tokens_of e) base vs)"
    then show ?goal ..
  next
    assume "\<exists>ops' v. eval_tokens (tokens_of e) base vs = Inr (ops' @ base, v # vs)
          \<and> all_operators ops' \<and> binary_count ops' = binary_count []"
    then obtain ops' v where "eval_tokens (tokens_of e) base vs = Inr (ops' @ base, [v] @ vs)"
      and "all_operators ops'" and "length [v] = Suc (binary_count ops')"
      by (auto simp: binary_count_def)
    then show ?goal by blast
  qed
qed

lemma leaves_pending_Bin:
  assumes e: "leaves_pending e" and b: "is_binary (type b)" and u: "extends_pending u"
  shows "leaves_pending (Bin e b u)"
  unfolding leaves_pending_def
proof (intro allI impI)
  fix base :: "Token list" and vs :: "double list"
  let ?p = "TOKEN_TYPE_PRECEDENCE (type b)"
  let ?goal = "(\<exists>ops' ws'. eval_tokens (tokens_of (Bin e b u)) base vs
                     = Inr (ops' @ base, ws' @ vs)
                  \<and> all_operators ops' \<and> length ws' = Suc (binary_count ops'))
              \<or> overflowed (eval_tokens (tokens_of (Bin e b u)) base vs)"
  assume base: "on_paren base"
  from b have op: "is_operator (type b)" by (rule is_binary_operator)
  from e base have "(\<exists>ops' ws'. eval_tokens (tokens_of e) base vs = Inr (ops' @ base, ws' @ vs)
                  \<and> all_operators ops' \<and> length ws' = Suc (binary_count ops'))
              \<or> overflowed (eval_tokens (tokens_of e) base vs)"
    unfolding leaves_pending_def by blast
  then show ?goal
  proof
    assume "overflowed (eval_tokens (tokens_of e) base vs)"
    then show ?goal by (simp add: eval_tokens_append overflowed_case)
  next
    assume "\<exists>ops' ws'. eval_tokens (tokens_of e) base vs = Inr (ops' @ base, ws' @ vs)
                  \<and> all_operators ops' \<and> length ws' = Suc (binary_count ops')"
    then obtain ops1 ws1 where
      1: "eval_tokens (tokens_of e) base vs = Inr (ops1 @ base, ws1 @ vs)"
      and ao1: "all_operators ops1" and lw1: "length ws1 = Suc (binary_count ops1)"
      by blast
    from lw1 have "binary_count ops1 < length ws1" by simp
    from pop_while_precedence_pending [OF ao1 base this, of ?p vs] show ?goal
    proof
      assume "overflowed (pop_while_precedence ?p (ops1 @ base) (ws1 @ vs))"
      then have "overflowed (eval_token b (ops1 @ base) (ws1 @ vs))"
        by (simp add: eval_token_operator [OF op] overflowed_case)
      then show ?goal by (simp add: eval_tokens_append 1 overflowed_case)
    next
      assume "\<exists>ops' ws'. pop_while_precedence ?p (ops1 @ base) (ws1 @ vs)
                 = Inr (ops' @ base, ws' @ vs)
              \<and> all_operators ops'
              \<and> length ws' + binary_count ops1 = length ws1 + binary_count ops'"
      then obtain ops2 ws2 where
        pw: "pop_while_precedence ?p (ops1 @ base) (ws1 @ vs) = Inr (ops2 @ base, ws2 @ vs)"
        and ao2: "all_operators ops2"
        and lw2: "length ws2 + binary_count ops1 = length ws1 + binary_count ops2"
        by blast
      from eval_token_push [OF op pw] show ?goal
      proof
        assume "overflowed (eval_token b (ops1 @ base) (ws1 @ vs))"
        then show ?goal by (simp add: eval_tokens_append 1 overflowed_case)
      next
        assume 2: "eval_token b (ops1 @ base) (ws1 @ vs) = Inr (b # ops2 @ base, ws2 @ vs)"
        have ao3: "all_operators (b # ops2)" using ao2 op by (simp add: all_operators_def)
        have hd3: "b # ops2 = [] \<or> is_binary (type (hd (b # ops2)))" using b by simp
        have lw3: "length ws2 = binary_count (b # ops2)"
          using lw1 lw2 b by (simp add: binary_count_def)
        from u [unfolded extends_pending_def, rule_format, OF ao3 hd3 base lw3, of vs]
        have "(\<exists>ops' v. eval_tokens (tokens_of u) (b # ops2 @ base) (ws2 @ vs)
                    = Inr (ops' @ base, v # ws2 @ vs)
                \<and> all_operators ops' \<and> binary_count ops' = binary_count (b # ops2))
              \<or> overflowed (eval_tokens (tokens_of u) (b # ops2 @ base) (ws2 @ vs))"
          by simp
        then show ?goal
        proof
          assume "overflowed (eval_tokens (tokens_of u) (b # ops2 @ base) (ws2 @ vs))"
          then show ?goal by (simp add: eval_tokens_append 1 2)
        next
          assume "\<exists>ops' v. eval_tokens (tokens_of u) (b # ops2 @ base) (ws2 @ vs)
                    = Inr (ops' @ base, v # ws2 @ vs)
                \<and> all_operators ops' \<and> binary_count ops' = binary_count (b # ops2)"
          then obtain ops3 v where
            3: "eval_tokens (tokens_of u) (b # ops2 @ base) (ws2 @ vs)
                  = Inr (ops3 @ base, v # ws2 @ vs)"
            and ao4: "all_operators ops3" and bc4: "binary_count ops3 = binary_count (b # ops2)"
            by blast
          have "eval_tokens (tokens_of (Bin e b u)) base vs = Inr (ops3 @ base, (v # ws2) @ vs)"
            by (simp add: eval_tokens_append 1 2 3)
          moreover have "length (v # ws2) = Suc (binary_count ops3)" using lw3 bc4 by simp
          ultimately show ?goal using ao4 by blast
        qed
      qed
    qed
  qed
qed

lemma well_formed_forms:
  "well_formed e \<Longrightarrow>
   (is_atom e \<longrightarrow> pushes_one_value e) \<and> (\<not> is_chain e \<longrightarrow> extends_pending e) \<and> leaves_pending e"
proof (induction e)
  case (Num n)
  then have "pushes_one_value (Num n)" by (simp add: pushes_one_value_Num)
  then show ?case by (simp add: extends_pending_atom leaves_pending_unary)
next
  case (Paren l e r)
  then have "pushes_one_value (Paren l e r)" by (simp add: pushes_one_value_Paren)
  then show ?case by (simp add: extends_pending_atom leaves_pending_unary)
next
  case (Neg m a)
  then have "extends_pending (Neg m a)" by (simp add: extends_pending_Neg)
  then show ?case by (simp add: leaves_pending_unary)
next
  case (Bin e b u)
  then show ?case by (simp add: leaves_pending_Bin)
qed

lemma well_formed_result:
  assumes "well_formed e"
  shows "(\<exists>v. eval_by_shunting_yard (tokens_of e) [] [] = Inr (v, [], []))
         \<or> overflowed (eval_by_shunting_yard (tokens_of e) [] [])"
proof -
  let ?goal = "(\<exists>v. eval_by_shunting_yard (tokens_of e) [] [] = Inr (v, [], []))
         \<or> overflowed (eval_by_shunting_yard (tokens_of e) [] [])"
  from well_formed_forms [OF assms] have "leaves_pending e" by simp
  moreover have "on_paren []" by (simp add: on_paren_def)
  ultimately have "(\<exists>ops ws. eval_tokens (tokens_of e) [] [] = Inr (ops @ [], ws @ [])
      \<and> all_operators ops \<and> length ws = Suc (binary_count ops))
    \<or> overflowed (eval_tokens (tokens_of e) [] [])"
    unfolding leaves_pending_def by blast
  then show ?goal
  proof
    assume "overflowed (eval_tokens (tokens_of e) [] [])"
    then show ?goal by (simp add: eval_by_shunting_yard_def overflowed_case)
  next
    assume "\<exists>ops ws. eval_tokens (tokens_of e) [] [] = Inr (ops @ [], ws @ [])
      \<and> all_operators ops \<and> length ws = Suc (binary_count ops)"
    then obtain ops ws where
      1: "eval_tokens (tokens_of e) [] [] = Inr (ops, ws)"
      and ao: "all_operators ops" and lw: "length ws = Suc (binary_count ops)"
      by auto
    from lw have "binary_count ops < length ws" by simp
    from reduce_all_operators [OF ao this, of "[]"] show ?goal
    proof
      assume "overflowed (reduce_all ops (ws @ []))"
      then have "overflowed (drain_operators ops ws)"
        by (simp add: drain_operators_eq [OF ao] overflowed_case)
      then show ?goal by (simp add: eval_by_shunting_yard_def 1 overflowed_case)
    next
      assume "\<exists>ws'. reduce_all ops (ws @ []) = Inr (ws' @ [])
          \<and> length ws' + binary_count ops = length ws"
      with lw obtain ws' where "reduce_all ops ws = Inr ws'" and "length ws' = 1" by auto
      then obtain v where "reduce_all ops ws = Inr [v]" by (cases ws') auto
      with ao have "drain_operators ops ws = Inr ([], [v])" by (simp add: drain_operators_eq)
      with 1 have "eval_by_shunting_yard (tokens_of e) [] [] = Inr (v, [], [])"
        by (simp add: eval_by_shunting_yard_def pop_value_def)
      then show ?goal by blast
    qed
  qed
qed

text \<open>
  The sizes of the stacks, for any tokens: a token adds at most one slot to each stack,
  and a stack only overflows when it is full.
\<close>

lemma reduce_sizes:
  "(reduce t vs = Inr vs' \<longrightarrow> length vs' \<le> length vs)
   \<and> (overflowed (reduce t vs) \<longrightarrow> STACK_SIZE_SHY_VALUES < length vs)"
  by (cases "type t"; cases vs; cases "tl vs")
     (auto simp: reduce_def evaluate_def pop_value_def push_value_def overflowed_def
           split: if_splits)

lemma pop_while_precedence_sizes:
  "(pop_while_precedence p ops vs = Inr (ops', vs')
      \<longrightarrow> length ops' \<le> length ops \<and> length vs' \<le> length vs)
   \<and> (overflowed (pop_while_precedence p ops vs) \<longrightarrow> STACK_SIZE_SHY_VALUES < length vs)"
proof (induction ops arbitrary: vs)
  case Nil
  then show ?case by auto
next
  case (Cons t ops)
  show ?case
  proof (cases "type t \<noteq> TOKEN_LEFT_PAREN \<and> TOKEN_TYPE_PRECEDENCE (type t) \<ge> p")
    case False
    then show ?thesis by auto
  next
    case True
    show ?thesis
    proof (cases "reduce t vs")
      case (Inl e)
      with True reduce_sizes [of t vs] show ?thesis by (auto simp: overflowed_def)
    next
      case (Inr vs1)
      with True reduce_sizes [of t vs vs1] Cons.IH [of vs1] show ?thesis by auto
    qed
  qed
qed

lemma pop_until_left_paren_sizes:
  "(pop_until_left_paren ops vs = Inr (ops', vs')
      \<longrightarrow> length ops' \<le> length ops \<and> length vs' \<le> length vs)
   \<and> (overflowed (pop_until_left_paren ops vs) \<longrightarrow> STACK_SIZE_SHY_VALUES < length vs)"
proof (induction ops arbitrary: vs)
  case Nil
  then show ?case by auto
next
  case (Cons t ops)
  show ?case
  proof (cases "type t \<noteq> TOKEN_LEFT_PAREN")
    case False
    then show ?thesis by auto
  next
    case True
    show ?thesis
    proof (cases "reduce t vs")
      case (Inl e)
      with True reduce_sizes [of t vs] show ?thesis by (auto simp: overflowed_def)
    next
      case (Inr vs1)
      with True reduce_sizes [of t vs vs1] Cons.IH [of vs1] show ?thesis by auto
    qed
  qed
qed

lemma drain_operators_overflow:
  "overflowed (drain_operators ops vs) \<Longrightarrow> STACK_SIZE_SHY_VALUES < length vs"
proof (induction ops arbitrary: vs)
  case Nil
  then show ?case by simp
next
  case (Cons t ops)
  show ?case
  proof (cases "type t = TOKEN_LEFT_PAREN")
    case True
    with Cons.prems show ?thesis by (simp add: overflowed_def)
  next
    case False
    show ?thesis
    proof (cases "reduce t vs")
      case (Inl e)
      with False Cons.prems reduce_sizes [of t vs] show ?thesis by (auto simp: overflowed_def)
    next
      case (Inr vs1)
      with False Cons.prems reduce_sizes [of t vs vs1] Cons.IH [of vs1] show ?thesis by auto
    qed
  qed
qed

lemma eval_token_sizes:
  "(eval_token t ops vs = Inr (ops', vs')
      \<longrightarrow> length ops' \<le> Suc (length ops) \<and> length vs' \<le> Suc (length vs))
   \<and> (overflowed (eval_token t ops vs)
      \<longrightarrow> STACK_SIZE_SHY_OPERATORS \<le> length ops \<or> STACK_SIZE_SHY_VALUES \<le> length vs)"
proof (cases "type t = TOKEN_NUMBER")
  case True
  then show ?thesis
    by (auto simp: eval_token_def push_value_def overflowed_def split: if_splits)
next
  case nn: False
  show ?thesis
  proof (cases "is_operator (type t)")
    case True
    show ?thesis
    proof (cases "pop_while_precedence (TOKEN_TYPE_PRECEDENCE (type t)) ops vs")
      case (Inl e)
      with pop_while_precedence_sizes [of "TOKEN_TYPE_PRECEDENCE (type t)" ops vs]
      show ?thesis by (auto simp: eval_token_operator [OF True] overflowed_def)
    next
      case (Inr r)
      obtain ops1 vs1 where r: "r = (ops1, vs1)" by (cases r)
      with Inr pop_while_precedence_sizes [of "TOKEN_TYPE_PRECEDENCE (type t)" ops vs ops1 vs1]
      show ?thesis
        by (auto simp: eval_token_operator [OF True] push_operator_def overflowed_def
            split: if_splits)
    qed
  next
    case False
    with nn consider (lp) "type t = TOKEN_LEFT_PAREN" | (rp) "type t = TOKEN_RIGHT_PAREN"
      by (cases "type t") simp_all
    then show ?thesis
    proof cases
      case lp
      then show ?thesis
        by (auto simp: eval_token_def push_operator_def overflowed_def split: if_splits)
    next
      case rp
      show ?thesis
      proof (cases "pop_until_left_paren ops vs")
        case (Inl e)
        with pop_until_left_paren_sizes [of ops vs]
        show ?thesis by (auto simp: eval_token_right_paren [OF rp] overflowed_def)
      next
        case (Inr r)
        obtain ops1 vs1 where r: "r = (ops1, vs1)" by (cases r)
        with Inr pop_until_left_paren_sizes [of ops vs ops1 vs1]
        show ?thesis
          by (cases ops1) (auto simp: eval_token_right_paren [OF rp] overflowed_def)
      qed
    qed
  qed
qed

lemma eval_tokens_sizes:
  "(eval_tokens ts ops vs = Inr (ops', vs')
      \<longrightarrow> length ops' \<le> length ops + length ts \<and> length vs' \<le> length vs + length ts)
   \<and> (overflowed (eval_tokens ts ops vs)
      \<longrightarrow> STACK_SIZE_SHY_OPERATORS < length ops + length ts
          \<or> STACK_SIZE_SHY_VALUES < length vs + length ts)"
proof (induction ts arbitrary: ops vs)
  case Nil
  then show ?case by simp
next
  case (Cons t ts)
  show ?case
  proof (cases "eval_token t ops vs")
    case (Inl e)
    with eval_token_sizes [of t ops vs] show ?thesis by (auto simp: overflowed_def)
  next
    case (Inr r)
    obtain ops1 vs1 where r: "r = (ops1, vs1)" by (cases r)
    with Inr eval_token_sizes [of t ops vs ops1 vs1] Cons.IH [of ops1 vs1]
    show ?thesis by auto
  qed
qed

lemma no_overflow_within_capacity:
  assumes "length ts \<le> 1024"
  shows "\<not> overflowed (eval_by_shunting_yard ts [] [])"
proof
  assume o: "overflowed (eval_by_shunting_yard ts [] [])"
  show False
  proof (cases "eval_tokens ts [] []")
    case (Inl e)
    with o have "overflowed (eval_tokens ts [] [])"
      by (simp add: eval_by_shunting_yard_def overflowed_def)
    with eval_tokens_sizes [of ts "[]" "[]"] assms show False
      by (simp add: STACK_SIZE_SHY_OPERATORS_def STACK_SIZE_SHY_VALUES_def)
  next
    case (Inr r)
    obtain ops1 vs1 where r: "r = (ops1, vs1)" by (cases r)
    with Inr eval_tokens_sizes [of ts "[]" "[]" ops1 vs1]
    have l: "length vs1 \<le> length ts" by simp
    from o Inr r have "overflowed (drain_operators ops1 vs1)"
      by (auto simp: eval_by_shunting_yard_def overflowed_def pop_value_def
          split: sum.splits if_splits list.splits)
    from drain_operators_overflow [OF this] l assms show False
      by (simp add: STACK_SIZE_SHY_VALUES_def)
  qed
qed

text \<open>
  C5, as amended: for every well-formed expression with balanced parentheses whose
  operands carry at most one unary minus each, the evaluation of its tokens from empty
  stacks either returns one result and leaves the operator stack and the value stack
  empty, or fails because one of the two stacks of 1024 slots is full; and it returns
  the result whenever the expression has at most 1024 tokens.
\<close>

theorem well_formed_expression_evaluates:
  "well_formed e \<Longrightarrow>
   ((\<exists>v. eval_by_shunting_yard (tokens_of e) [] [] = Inr (v, [], []))
    \<or> eval_by_shunting_yard (tokens_of e) [] [] = Inl OperatorsStackOverflow
    \<or> eval_by_shunting_yard (tokens_of e) [] [] = Inl ValuesStackOverflow)
   \<and> (length (tokens_of e) \<le> 1024
       \<longrightarrow> (\<exists>v. eval_by_shunting_yard (tokens_of e) [] [] = Inr (v, [], [])))"
  using well_formed_result [of e] no_overflow_within_capacity [of "tokens_of e"]
  by (auto simp: overflowed_def)

lemma lex_sample:
  "scanner_execute ''-(2 + 3) * -4'' =
     Inr [tk TOKEN_UMINUS 0, tk TOKEN_LEFT_PAREN 1, number_token (DFinite 2) 2 2,
          tk TOKEN_PLUS 4, number_token (DFinite 3) 6 6, tk TOKEN_RIGHT_PAREN 7,
          tk TOKEN_STAR 9, tk TOKEN_UMINUS 11, number_token (DFinite 4) 12 12]"
  by (simp add: scan_eval tk_def number_token_def)

text \<open>
  The line \<open>-(2 + 3) * -4\<close>: its tokens are those of \<open>sample_expression\<close>, and they
  evaluate to 20.
\<close>

theorem well_formed_expression_evaluates_witness:
  "well_formed sample_expression
   \<and> length (tokens_of sample_expression) \<le> 1024
   \<and> scanner_execute ''-(2 + 3) * -4'' = Inr (tokens_of sample_expression)
   \<and> eval_by_shunting_yard (tokens_of sample_expression) [] [] = Inr (DFinite 20, [], [])"
  using well_formed_expression_evaluates [of sample_expression] lex_sample
  by (simp add: sample_expression_def tk_def number_token_def shy_eval mk_finite_def)

lemma well_formed_deep: "well_formed (deep n i)"
  by (induction n arbitrary: i) (simp_all add: number_token_def tk_def)

lemma deep_overflows:
  "length ops \<le> STACK_SIZE_SHY_OPERATORS \<Longrightarrow> STACK_SIZE_SHY_OPERATORS < length ops + n \<Longrightarrow>
   eval_tokens (tokens_of (deep n i)) ops vs = Inl OperatorsStackOverflow"
proof (induction n arbitrary: ops i)
  case 0
  then show ?case by simp
next
  case (Suc n)
  show ?case
  proof (cases "length ops = STACK_SIZE_SHY_OPERATORS")
    case True
    then have "eval_token (tk TOKEN_LEFT_PAREN i) ops vs = Inl OperatorsStackOverflow"
      by (simp add: eval_token_def push_operator_def tk_def)
    then show ?thesis by simp
  next
    case False
    with Suc.prems have lt: "length ops < STACK_SIZE_SHY_OPERATORS" by simp
    then have 1: "eval_token (tk TOKEN_LEFT_PAREN i) ops vs = Inr (tk TOKEN_LEFT_PAREN i # ops, vs)"
      by (simp add: eval_token_def push_operator_def tk_def)
    from lt Suc.prems have "length (tk TOKEN_LEFT_PAREN i # ops) \<le> STACK_SIZE_SHY_OPERATORS"
      and "STACK_SIZE_SHY_OPERATORS < length (tk TOKEN_LEFT_PAREN i # ops) + n" by simp_all
    from Suc.IH [OF this]
    have "eval_tokens (tokens_of (deep n (i + 1))) (tk TOKEN_LEFT_PAREN i # ops) vs
        = Inl OperatorsStackOverflow" .
    then show ?thesis by (simp add: 1 eval_tokens_append)
  qed
qed

text \<open>The scanner on the line of \<open>n\<close> left parentheses, a 5 and \<open>n\<close> right parentheses.\<close>

lemma lex_from_start: "lex_from (sc\<lparr>start := x\<rparr>) = lex_from sc"
proof -
  have e: "scanner_is_at_end (sc\<lparr>start := x\<rparr>) = scanner_is_at_end sc"
    by (simp add: scanner_is_at_end_def)
  have u: "sc\<lparr>start := x, start := current sc\<rparr> = sc\<lparr>start := current sc\<rparr>"
    by simp
  show ?thesis
  proof (cases "scanner_is_at_end sc")
    case True
    then have "scanner_loop (sc\<lparr>start := x\<rparr>) = Inr (sc\<lparr>start := x\<rparr>)"
      and "scanner_loop sc = Inr sc"
      by (subst scanner_loop.simps, simp add: e)+
    then show ?thesis by (simp add: lex_from_def)
  next
    case False
    then have "scanner_loop (sc\<lparr>start := x\<rparr>) =
        (case scanner_scan_token (sc\<lparr>start := current sc\<rparr>) of
           Inl e \<Rightarrow> Inl e | Inr sc' \<Rightarrow> scanner_loop sc')"
      by (subst scanner_loop.simps) (simp add: e u)
    moreover from False have "scanner_loop sc =
        (case scanner_scan_token (sc\<lparr>start := current sc\<rparr>) of
           Inl e \<Rightarrow> Inl e | Inr sc' \<Rightarrow> scanner_loop sc')"
      by (subst scanner_loop.simps) simp
    ultimately show ?thesis by (simp add: lex_from_def)
  qed
qed

lemma lex_from_paren:
  assumes d: "drop (current sc) (source sc) = c # rest"
    and c: "c = CHR ''('' \<and> ty = TOKEN_LEFT_PAREN \<or> c = CHR '')'' \<and> ty = TOKEN_RIGHT_PAREN"
  shows "lex_from sc =
     lex_from (sc\<lparr>current := Suc (current sc),
                  tokens := tokens sc @ [tk ty (int (current sc))]\<rparr>)"
proof -
  from d have lt: "current sc < length (source sc)"
    by (cases "current sc < length (source sc)") auto
  with d have ch: "char_at (source sc) (current sc) = c"
    by (simp add: char_at_def hd_drop_conv_nth [symmetric])
  with c have ne: "\<not> scanner_is_at_end sc" by (auto simp: scanner_is_at_end_def)
  from c ch have "scanner_scan_token (sc\<lparr>start := current sc\<rparr>)
      = Inr (sc\<lparr>start := current sc, current := Suc (current sc),
                tokens := tokens sc @ [tk ty (int (current sc))]\<rparr>)"
    by (auto simp: scanner_scan_token_def scanner_advance_def scanner_add_token_def tk_def)
  with ne have "lex_from sc = lex_from (sc\<lparr>start := current sc, current := Suc (current sc),
                tokens := tokens sc @ [tk ty (int (current sc))]\<rparr>)"
    unfolding lex_from_def by (subst scanner_loop.simps) simp
  also have "\<dots> = lex_from ((sc\<lparr>current := Suc (current sc),
                tokens := tokens sc @ [tk ty (int (current sc))]\<rparr>)\<lparr>start := current sc\<rparr>)"
    by (cases sc) simp
  finally show ?thesis by (simp only: lex_from_start)
qed

lemma lex_from_five:
  assumes d: "drop (current sc) (source sc) = CHR ''5'' # rest"
    and r: "rest = [] \<or> hd rest = CHR '')''"
  shows "lex_from sc =
     lex_from (sc\<lparr>current := Suc (current sc),
                  tokens := tokens sc @
                    [number_token (DFinite 5) (int (current sc)) (int (current sc))]\<rparr>)"
proof -
  let ?i = "current sc" and ?src = "source sc"
  from d have lt: "?i < length ?src"
    by (cases "?i < length ?src") auto
  with d have ch: "char_at ?src ?i = CHR ''5''"
    by (simp add: char_at_def hd_drop_conv_nth [symmetric])
  then have ne: "\<not> scanner_is_at_end sc" by (simp add: scanner_is_at_end_def)
  from d have d1: "drop (Suc ?i) ?src = rest"
    by (metis drop_Suc tl_drop list.sel(3))
  have nx: "char_at ?src (Suc ?i) = CHR 0x00 \<or> char_at ?src (Suc ?i) = CHR '')''"
  proof (cases rest)
    case Nil
    with d1 have "length ?src \<le> Suc ?i" by simp
    then show ?thesis by (simp add: char_at_def)
  next
    case (Cons x xs)
    with r have "hd rest = CHR '')''" by simp
    moreover from Cons d1 have "Suc ?i < length ?src"
      by (cases "Suc ?i < length ?src") auto
    ultimately show ?thesis using d1 by (simp add: char_at_def hd_drop_conv_nth [symmetric])
  qed
  then have nd: "\<not> IS_DIGIT (char_at ?src (Suc ?i))" and ndot: "char_at ?src (Suc ?i) \<noteq> CHR ''.''"
    by (auto simp: IS_DIGIT_def)
  have de: "digits_end ?src (Suc ?i) = Suc ?i"
    using nd by (subst digits_end_step) simp
  have e: "number_end ?src (Suc ?i) = Suc ?i"
    using ndot by (simp add: number_end_def de)
  have lit: "atof (memcpy_source ?src ?i 2) = DFinite 5"
  proof -
    have "memcpy_source ?src ?i 2 = [CHR ''5'', char_at ?src (Suc ?i)]"
      using ch by (simp add: memcpy_source_def upt_rec)
    with nx show ?thesis
      by (auto simp: atof_def IS_DIGIT_def digits_value_def digit_value_def mk_finite_def)
  qed
  from ch have "scanner_scan_token (sc\<lparr>start := ?i\<rparr>)
      = Inr (scanner_number (sc\<lparr>start := ?i, current := Suc ?i\<rparr>))"
    by (simp add: scanner_scan_token_def scanner_advance_def IS_DIGIT_def)
  also have "scanner_number (sc\<lparr>start := ?i, current := Suc ?i\<rparr>)
      = sc\<lparr>start := ?i, current := Suc ?i,
           tokens := tokens sc @ [number_token (DFinite 5) (int ?i) (int ?i)]\<rparr>"
    by (simp add: scanner_number_eq e lit number_token_def)
  finally have "lex_from sc = lex_from (sc\<lparr>start := ?i, current := Suc ?i,
           tokens := tokens sc @ [number_token (DFinite 5) (int ?i) (int ?i)]\<rparr>)"
    using ne unfolding lex_from_def by (subst scanner_loop.simps) simp
  also have "\<dots> = lex_from ((sc\<lparr>current := Suc ?i,
           tokens := tokens sc @ [number_token (DFinite 5) (int ?i) (int ?i)]\<rparr>)\<lparr>start := ?i\<rparr>)"
    by (cases sc) simp
  finally show ?thesis by (simp only: lex_from_start)
qed

lemma lex_from_deep:
  "drop (current sc) (source sc)
     = replicate n CHR ''('' @ CHR ''5'' # replicate n CHR '')'' @ post \<Longrightarrow>
   post = [] \<or> hd post = CHR '')'' \<Longrightarrow>
   lex_from sc =
     lex_from (sc\<lparr>current := current sc + 2 * n + 1,
                  tokens := tokens sc @ tokens_of (deep n (int (current sc)))\<rparr>)"
proof (induction n arbitrary: sc post)
  case 0
  then have "drop (current sc) (source sc) = CHR ''5'' # post" by simp
  from lex_from_five [OF this "0.prems"(2)] show ?case by simp
next
  case (Suc n)
  let ?i = "current sc"
  let ?mid = "replicate n CHR ''('' @ CHR ''5'' # replicate n CHR '')''"
  have "replicate (Suc n) CHR '')'' = replicate n CHR '')'' @ [CHR '')'']"
    by (metis replicate_Suc replicate_append_same)
  then have rp: "replicate (Suc n) CHR '')'' @ post = replicate n CHR '')'' @ CHR '')'' # post"
    by (simp only: append_assoc append_Cons append_Nil)
  from Suc.prems(1) have "drop ?i (source sc)
      = replicate (Suc n) CHR ''('' @ CHR ''5'' # replicate n CHR '')'' @ CHR '')'' # post"
    by (simp only: rp)
  then have d: "drop ?i (source sc) = CHR ''('' # (?mid @ CHR '')'' # post)"
    by simp
  let ?s1 = "sc\<lparr>current := Suc ?i, tokens := tokens sc @ [tk TOKEN_LEFT_PAREN (int ?i)]\<rparr>"
  from lex_from_paren [OF d, of TOKEN_LEFT_PAREN] have 1: "lex_from sc = lex_from ?s1" by simp
  from d have d1: "drop (Suc ?i) (source sc) = ?mid @ CHR '')'' # post"
    by (metis drop_Suc tl_drop list.sel(3))
  then have "drop (current ?s1) (source ?s1)
      = replicate n CHR ''('' @ CHR ''5'' # replicate n CHR '')'' @ (CHR '')'' # post)"
    by simp
  from Suc.IH [OF this] have 2: "lex_from ?s1 =
      lex_from (?s1\<lparr>current := current ?s1 + 2 * n + 1,
                   tokens := tokens ?s1 @ tokens_of (deep n (int (current ?s1)))\<rparr>)"
    by simp
  let ?s2 = "sc\<lparr>current := ?i + 2 * n + 2,
                 tokens := tokens sc @ tk TOKEN_LEFT_PAREN (int ?i)
                   # tokens_of (deep n (int ?i + 1))\<rparr>"
  have s2: "?s1\<lparr>current := current ?s1 + 2 * n + 1,
                tokens := tokens ?s1 @ tokens_of (deep n (int (current ?s1)))\<rparr> = ?s2"
    by (cases sc) (simp add: add.commute)
  have "length ?mid = 2 * n + 1" by simp
  then have "drop (2 * n + 1) (?mid @ CHR '')'' # post) = CHR '')'' # post"
    by (simp only: append_eq_conv_conj [THEN iffD1] drop_append) simp
  with d1 have "drop (2 * n + 1) (drop (Suc ?i) (source sc)) = CHR '')'' # post" by simp
  then have d2: "drop (current ?s2) (source ?s2) = CHR '')'' # post"
    by (simp add: add.commute)
  from lex_from_paren [OF d2, of TOKEN_RIGHT_PAREN]
  have 3: "lex_from ?s2 = lex_from (?s2\<lparr>current := Suc (current ?s2),
      tokens := tokens ?s2 @ [tk TOKEN_RIGHT_PAREN (int (current ?s2))]\<rparr>)"
    by simp
  have s3: "?s2\<lparr>current := Suc (current ?s2),
      tokens := tokens ?s2 @ [tk TOKEN_RIGHT_PAREN (int (current ?s2))]\<rparr>
      = sc\<lparr>current := ?i + 2 * Suc n + 1,
           tokens := tokens sc @ tokens_of (deep (Suc n) (int ?i))\<rparr>"
    by (cases sc) (simp add: algebra_simps)
  from 1 2 s2 3 s3 show ?case by simp
qed

lemma lex_deep:
  "scanner_execute (replicate n CHR ''('' @ CHR ''5'' # replicate n CHR '')'')
     = Inr (tokens_of (deep n 0))"
proof -
  let ?src = "replicate n CHR ''('' @ CHR ''5'' # replicate n CHR '')''"
  let ?end = "(scanner_init ?src)\<lparr>current := 2 * n + 1, tokens := tokens_of (deep n 0)\<rparr>"
  have "drop (current (scanner_init ?src)) (source (scanner_init ?src))
      = replicate n CHR ''('' @ CHR ''5'' # replicate n CHR '')'' @ []"
    by (simp add: scanner_init_def)
  from lex_from_deep [OF this] have "lex_from (scanner_init ?src) = lex_from ?end"
    by (simp add: scanner_init_def)
  moreover have "scanner_is_at_end ?end"
    by (simp add: scanner_is_at_end_def scanner_init_def char_at_def)
  then have "scanner_loop ?end = Inr ?end" by (subst scanner_loop.simps) simp
  ultimately show ?thesis by (simp add: scanner_execute_def lex_from_def split: sum.splits)
qed

text \<open>
  The claim as stated holds of every well-formed expression. The number 5 in 1025 pairs
  of parentheses is well formed and balanced, the scanner gives its tokens for the line
  written so, and the evaluation fails: the operator stack is full when the last left
  parenthesis is to be pushed.
\<close>

theorem deep_nesting_counterexample:
  "well_formed (deep 1025 0)
   \<and> scanner_execute (replicate 1025 CHR ''('' @ CHR ''5'' # replicate 1025 CHR '')'')
       = Inr (tokens_of (deep 1025 0))
   \<and> eval_by_shunting_yard (tokens_of (deep 1025 0)) [] [] = Inl OperatorsStackOverflow
   \<and> process_line (replicate 1025 CHR ''('' @ CHR ''5'' # replicate 1025 CHR '')'')
       = Inl OperatorsStackOverflow"
proof -
  have "eval_tokens (tokens_of (deep 1025 0)) [] [] = Inl OperatorsStackOverflow"
    by (rule deep_overflows) (simp_all add: STACK_SIZE_SHY_OPERATORS_def)
  then have "eval_by_shunting_yard (tokens_of (deep 1025 0)) [] [] = Inl OperatorsStackOverflow"
    by (simp add: eval_by_shunting_yard_def)
  then show ?thesis
    by (simp only: well_formed_deep lex_deep process_line_def sum.case simp_thms)
qed

end
